theory Spec2Isabelle
  imports Complex_Main "HOL-Library.AList" "HOL-Library.Multiset" "HOL-Library.Log_Nat"
begin

section \<open>Community detection in graphs: Louvain and Leiden\<close>

text \<open>
  A shallow embedding of \<^verbatim>\<open>leiden_algt.py\<close>. Node and community identifiers are Python
  integers (\<open>int\<close>): the refinement phase computes \<^verbatim>\<open>max(particao.values()) + 1\<close> and the
  aggregated graph uses community identifiers as nodes. Edge weights are Python floats,
  idealised as \<open>real\<close>: sums, quotients and comparisons are exact. Where a property
  depends on the rounding of double precision, the functions concerned are given a second
  time with every operation rounded (the definitions whose names end in \<open>_float\<close>).
  A Python \<^verbatim>\<open>dict\<close> is an association list in insertion order
  with \<open>AList.update\<close> as item assignment; a raised exception is the \<open>Inl\<close> branch of
  a sum.
\<close>

subsection \<open>Errors and dictionaries\<close>

datatype error = KeyError | NetworkXError

definition ebind :: "error + 'a \<Rightarrow> ('a \<Rightarrow> error + 'b) \<Rightarrow> error + 'b" where
  "ebind r f = (case r of Inl e \<Rightarrow> Inl e | Inr x \<Rightarrow> f x)"

type_synonym partition = "(int \<times> int) list"

text \<open>\<^verbatim>\<open>particao[k]\<close>: a missing key raises \<^verbatim>\<open>KeyError\<close>.\<close>

definition lookup :: "partition \<Rightarrow> int \<Rightarrow> error + int" where
  "lookup P k = (case map_of P k of None \<Rightarrow> Inl KeyError | Some c \<Rightarrow> Inr c)"

subsection \<open>The graph library\<close>

text \<open>
  \<^verbatim>\<open>networkx.Graph\<close>: the nodes in insertion order and every undirected edge once, with
  its \<^verbatim>\<open>weight\<close> attribute (an edge without the attribute counts as \<open>1.0\<close> in every
  query the program makes, so the weight is stored resolved).
\<close>

record graph =
  nodes :: "int list"
  edges :: "(int \<times> int \<times> real) list"

definition wf_graph :: "graph \<Rightarrow> bool" where
  "wf_graph G \<longleftrightarrow>
     distinct (nodes G) \<and>
     (\<forall>e \<in> set (edges G). fst e \<in> set (nodes G) \<and> fst (snd e) \<in> set (nodes G)) \<and>
     distinct (map (\<lambda>e. (min (fst e) (fst (snd e)), max (fst e) (fst (snd e)))) (edges G))"

definition positive_weights :: "graph \<Rightarrow> bool" where
  "positive_weights G \<longleftrightarrow> (\<forall>e \<in> set (edges G). 0 < snd (snd e))"

text \<open>\<^verbatim>\<open>G.size(weight='weight')\<close>: the sum of all edge weights, a self-loop counted once.\<close>

definition size_graph :: "graph \<Rightarrow> real" where
  "size_graph G = (\<Sum>e\<leftarrow>edges G. snd (snd e))"

text \<open>The weighted degree: the sum of the incident weights, a self-loop counted twice.\<close>

definition weighted_degree :: "graph \<Rightarrow> int \<Rightarrow> real" where
  "weighted_degree G n =
     (\<Sum>e\<leftarrow>edges G. (if fst e = n then snd (snd e) else 0) +
                      (if fst (snd e) = n then snd (snd e) else 0))"

text \<open>\<^verbatim>\<open>G.degree(n, weight='weight')\<close> raises for a node that is not in the graph.\<close>

definition degree :: "graph \<Rightarrow> int \<Rightarrow> error + real" where
  "degree G n = (if n \<in> set (nodes G) then Inr (weighted_degree G n) else Inl NetworkXError)"

text \<open>
  \<^verbatim>\<open>G.subgraph(ns)\<close>: the induced subgraph; members of \<open>ns\<close> outside the graph are
  ignored. The nodes are listed in the order of the graph; the library lists them in the
  order of the set \<open>ns\<close> instead when it holds fewer than half of the nodes of the
  graph, which changes the order in which the nodes of the view are listed (the list
  that the local moving shuffles), not the nodes and edges it has.
\<close>

definition subgraph :: "graph \<Rightarrow> int list \<Rightarrow> graph" where
  "subgraph G ns =
     \<lparr>nodes = filter (\<lambda>n. n \<in> set ns) (nodes G),
      edges = filter (\<lambda>e. fst e \<in> set ns \<and> fst (snd e) \<in> set ns) (edges G)\<rparr>"

text \<open>\<^verbatim>\<open>G.adj[n].items()\<close>: every neighbour with the weight of the edge; a self-loop once.\<close>

definition adj_items :: "graph \<Rightarrow> int \<Rightarrow> (int \<times> real) list" where
  "adj_items G n =
     concat (map (\<lambda>e. if fst e = n then [(fst (snd e), snd (snd e))]
                      else if fst (snd e) = n then [(fst e, snd (snd e))] else []) (edges G))"

definition adj :: "graph \<Rightarrow> int \<Rightarrow> error + (int \<times> real) list" where
  "adj G n = (if n \<in> set (nodes G) then Inr (adj_items G n) else Inl KeyError)"

text \<open>\<^verbatim>\<open>H.neighbors(n)\<close> raises \<^verbatim>\<open>NetworkXError\<close> for a node outside the graph.\<close>

definition neighbors :: "graph \<Rightarrow> int \<Rightarrow> error + int list" where
  "neighbors H n =
     (if n \<in> set (nodes H) then Inr (map fst (adj_items H n)) else Inl NetworkXError)"

subsection \<open>Modularity\<close>

text \<open>The comprehension \<^verbatim>\<open>[n for n, c in particao.items() if c == cid]\<close>.\<close>

definition nos_da_comunidade :: "partition \<Rightarrow> int \<Rightarrow> int list" where
  "nos_da_comunidade particao cid = map fst (filter (\<lambda>p. snd p = cid) particao)"

text \<open>\<^verbatim>\<open>mapa_comunidades[id_comunidade].add(no)\<close> on a \<^verbatim>\<open>defaultdict(set)\<close>.\<close>

definition add_no :: "(int \<times> int list) list \<Rightarrow> int \<times> int \<Rightarrow> (int \<times> int list) list" where
  "add_no m p =
     AList.update (snd p)
       (case map_of m (snd p) of
          None \<Rightarrow> [fst p]
        | Some s \<Rightarrow> if fst p \<in> set s then s else s @ [fst p]) m"

definition agrupar_por_comunidade :: "partition \<Rightarrow> (int \<times> int list) list" where
  "agrupar_por_comunidade particao = foldl add_no [] particao"

text \<open>\<^verbatim>\<open>sum(G.degree(no, weight='weight') for no in nos)\<close>.\<close>

fun soma_graus :: "graph \<Rightarrow> int list \<Rightarrow> error + real" where
  "soma_graus G [] = Inr 0"
| "soma_graus G (no # nos) =
     ebind (degree G no) (\<lambda>d. ebind (soma_graus G nos) (\<lambda>s. Inr (d + s)))"

text \<open>The loop of \<^verbatim>\<open>calcular_modularidade\<close> over the communities, with its accumulator.\<close>

fun soma_contribuicoes ::
  "graph \<Rightarrow> real \<Rightarrow> (int \<times> int list) list \<Rightarrow> real \<Rightarrow> error + real" where
  "soma_contribuicoes G m [] modularidade_total = Inr modularidade_total"
| "soma_contribuicoes G m (c # rest) modularidade_total =
     ebind (soma_graus G (snd c)) (\<lambda>soma.
       let peso_arestas_internas = size_graph (subgraph G (snd c));
           frac_interna = peso_arestas_internas / m;
           frac_graus = soma / (2 * m)
       in soma_contribuicoes G m rest (modularidade_total + (frac_interna - frac_graus\<^sup>2)))"

definition calcular_modularidade :: "graph \<Rightarrow> partition \<Rightarrow> error + real" where
  "calcular_modularidade G particao =
     (let comunidades = agrupar_por_comunidade particao;
          m = size_graph G
      in if m = 0 then Inr 0 else soma_contribuicoes G m comunidades 0)"

definition calc_propriedades :: "graph \<Rightarrow> int list \<Rightarrow> error + (real \<times> real)" where
  "calc_propriedades G nodes_in_community =
     ebind (soma_graus G nodes_in_community) (\<lambda>grau_total.
       Inr (grau_total, size_graph (subgraph G nodes_in_community)))"

text \<open>
  The loop of \<^verbatim>\<open>calc_delta_q\<close> over \<^verbatim>\<open>G.adj[no_a_mover].items()\<close>; the state is the pair
  \<^verbatim>\<open>(no_k_para_atual, no_k_para_alvo)\<close>.
\<close>

fun soma_k ::
  "partition \<Rightarrow> int \<Rightarrow> int \<Rightarrow> (int \<times> real) list \<Rightarrow> real \<times> real \<Rightarrow> error + (real \<times> real)" where
  "soma_k particao atual alvo [] acc = Inr acc"
| "soma_k particao atual alvo (vp # rest) acc =
     ebind (lookup particao (fst vp)) (\<lambda>c.
       soma_k particao atual alvo rest
         (if c = atual then fst acc + snd vp else fst acc,
          if c = alvo then snd acc + snd vp else snd acc))"

definition calc_delta_q :: "graph \<Rightarrow> partition \<Rightarrow> int \<Rightarrow> int \<Rightarrow> error + real" where
  "calc_delta_q G particao no_a_mover id_comunidade_alvo =
     (let m = size_graph G in
      if m = 0 then Inr 0
      else ebind (lookup particao no_a_mover) (\<lambda>id_comunidade_atual.
        if id_comunidade_atual = id_comunidade_alvo then Inr 0
        else
          let nos_em_alvo = nos_da_comunidade particao id_comunidade_alvo;
              nos_em_atual = nos_da_comunidade particao id_comunidade_atual
          in ebind (calc_propriedades G nos_em_atual) (\<lambda>(grau_comun_atual, peso_comun_atual).
             ebind (calc_propriedades G nos_em_alvo) (\<lambda>(grau_alvo_atual, peso_alvo_atual).
               let contrib_antes =
                     (peso_comun_atual / m - (grau_comun_atual / (2 * m))\<^sup>2) +
                     (peso_alvo_atual / m - (grau_alvo_atual / (2 * m))\<^sup>2)
               in ebind (degree G no_a_mover) (\<lambda>no_k.
                  ebind (adj G no_a_mover) (\<lambda>viz.
                  ebind (soma_k particao id_comunidade_atual id_comunidade_alvo viz (0, 0))
                    (\<lambda>(no_k_para_atual, no_k_para_alvo).
                      let novo_grau_comun = grau_comun_atual - no_k;
                          novo_peso_comun = peso_comun_atual - no_k_para_atual;
                          novo_grau_alvo = grau_alvo_atual + no_k;
                          novo_peso_alvo = peso_alvo_atual + no_k_para_alvo;
                          contrib_depois =
                            (novo_peso_comun / m - (novo_grau_comun / (2 * m))\<^sup>2) +
                            (novo_peso_alvo / m - (novo_grau_alvo / (2 * m))\<^sup>2)
                      in Inr (contrib_depois - contrib_antes))))))))"


text \<open>
  The modularity of section 4.2 of the specification, written as the sum over the
  community identifiers in use of \<open>\<Sigma>in / m - (\<Sigma>deg / 2m)\<^sup>2\<close>, each community being
  the nodes the partition maps to it.
\<close>

definition contribuicao :: "graph \<Rightarrow> partition \<Rightarrow> int \<Rightarrow> real" where
  "contribuicao G P c =
     size_graph (subgraph G (nos_da_comunidade P c)) / size_graph G -
     ((\<Sum>n\<leftarrow>nos_da_comunidade P c. weighted_degree G n) / (2 * size_graph G))\<^sup>2"

definition modularity_spec :: "graph \<Rightarrow> partition \<Rightarrow> real" where
  "modularity_spec G P =
     (if size_graph G = 0 then 0 else (\<Sum>c \<in> snd ` set P. contribuicao G P c))"

subsection \<open>Example inputs\<close>

text \<open>Two nodes joined by an edge of weight 1, node 0 carrying a self-loop of weight 1.\<close>

definition grafo_com_laco :: graph where
  "grafo_com_laco = \<lparr>nodes = [0, 1], edges = [(0, 0, 1), (0, 1, 1)]\<rparr>"

text \<open>Three isolated nodes: a graph of total weight zero.\<close>

definition grafo_sem_arestas :: graph where
  "grafo_sem_arestas = \<lparr>nodes = [0, 1, 2], edges = []\<rparr>"

subsection \<open>The random generator and the iteration order of sets\<close>

text \<open>
  The process-wide generator of \<^verbatim>\<open>random\<close> is a state: the sequence of draws it will
  deliver. \<^verbatim>\<open>_randbelow(n)\<close> returns a number below \<open>n\<close> and advances the generator;
  \<^verbatim>\<open>random.shuffle\<close> is the library's loop
  \<^verbatim>\<open>for i in reversed(range(1, len(x))): j = randbelow(i + 1); x[i], x[j] = x[j], x[i]\<close>.
\<close>

type_synonym rng = "nat \<Rightarrow> nat"

definition randbelow :: "nat \<Rightarrow> rng \<Rightarrow> nat \<times> rng" where
  "randbelow n g = (g 0 mod n, \<lambda>i. g (Suc i))"

fun shuffle_from :: "nat \<Rightarrow> int list \<Rightarrow> rng \<Rightarrow> int list \<times> rng" where
  "shuffle_from 0 x g = (x, g)"
| "shuffle_from (Suc i) x g =
     (case randbelow (Suc i + 1) g of
        (j, g') \<Rightarrow> shuffle_from i (x[Suc i := x ! j, j := x ! Suc i]) g')"

definition shuffle :: "int list \<Rightarrow> rng \<Rightarrow> int list \<times> rng" where
  "shuffle x g = shuffle_from (length x - 1) x g"

text \<open>
  A Python \<^verbatim>\<open>set\<close> is iterated in the order of its hash table, which the program does
  not control: the order is a parameter, a function from the sequence of insertions to
  the sequence of iteration.
\<close>

type_synonym set_order = "int list \<Rightarrow> int list"

definition valid_order :: "set_order \<Rightarrow> bool" where
  "valid_order ord \<longleftrightarrow> (\<forall>xs. set (ord xs) = set xs \<and> distinct (ord xs))"

subsection \<open>Local moving phase\<close>

text \<open>A result of a loop that may not return: \<open>None\<close> when the fuel runs out.\<close>

definition rbind ::
  "(error + 'a) option \<Rightarrow> ('a \<Rightarrow> (error + 'b) option) \<Rightarrow> (error + 'b) option" where
  "rbind r f = (case r of None \<Rightarrow> None | Some (Inl e) \<Rightarrow> Some (Inl e) | Some (Inr x) \<Rightarrow> f x)"

text \<open>\<^verbatim>\<open>{comunidades[vizinho] for vizinho in H.neighbors(no)}\<close>, in insertion order.\<close>

fun comunidades_vizinhos :: "partition \<Rightarrow> int list \<Rightarrow> error + int list" where
  "comunidades_vizinhos comunidades [] = Inr []"
| "comunidades_vizinhos comunidades (vizinho # vs) =
     ebind (lookup comunidades vizinho) (\<lambda>c.
       ebind (comunidades_vizinhos comunidades vs) (\<lambda>cs. Inr (c # cs)))"

text \<open>
  The loop over \<^verbatim>\<open>vizinhos_comunidades\<close>; the state is
  \<^verbatim>\<open>(melhor_delta_q, melhor_comunidade)\<close>.
\<close>

fun melhor_movimento ::
  "graph \<Rightarrow> partition \<Rightarrow> int \<Rightarrow> int \<Rightarrow> int list \<Rightarrow> real \<times> int \<Rightarrow> error + (real \<times> int)" where
  "melhor_movimento G comunidades no comunidade_atual [] melhor = Inr melhor"
| "melhor_movimento G comunidades no comunidade_atual (comunidade_vizinho # cs) melhor =
     (if comunidade_atual \<noteq> comunidade_vizinho
      then ebind (calc_delta_q G comunidades no comunidade_vizinho) (\<lambda>delta_q.
             melhor_movimento G comunidades no comunidade_atual cs
               (if delta_q > fst melhor then (delta_q, comunidade_vizinho) else melhor))
      else melhor_movimento G comunidades no comunidade_atual cs melhor)"

text \<open>The body of \<^verbatim>\<open>for no in lista_nos\<close>; the state is \<^verbatim>\<open>(comunidades, melhorou)\<close>.\<close>

definition visitar_no ::
  "set_order \<Rightarrow> graph \<Rightarrow> graph \<Rightarrow> partition \<times> bool \<Rightarrow> int \<Rightarrow> error + (partition \<times> bool)" where
  "visitar_no ord H G_completo st no =
     (let comunidades = fst st in
      ebind (lookup comunidades no) (\<lambda>comunidade_atual.
      ebind (neighbors H no) (\<lambda>vs.
      ebind (comunidades_vizinhos comunidades vs) (\<lambda>cs.
      ebind (melhor_movimento G_completo comunidades no comunidade_atual (ord cs)
               (0, comunidade_atual)) (\<lambda>melhor.
        if fst melhor > 0
        then Inr (AList.update no (snd melhor) comunidades, True)
        else Inr st)))))"

fun varredura ::
  "set_order \<Rightarrow> graph \<Rightarrow> graph \<Rightarrow> int list \<Rightarrow> partition \<times> bool \<Rightarrow> error + (partition \<times> bool)" where
  "varredura ord H G_completo [] st = Inr st"
| "varredura ord H G_completo (no # lista_nos) st =
     ebind (visitar_no ord H G_completo st no) (varredura ord H G_completo lista_nos)"

text \<open>
  \<^verbatim>\<open>while melhorou\<close>: one sweep per unit of fuel, over a fresh shuffle of \<^verbatim>\<open>H.nodes()\<close>.
\<close>

fun encontrar_movimentacao_local ::
  "nat \<Rightarrow> set_order \<Rightarrow> graph \<Rightarrow> graph \<Rightarrow> partition \<Rightarrow> rng \<Rightarrow> (error + partition \<times> rng) option" where
  "encontrar_movimentacao_local 0 ord H G_completo comunidades g = None"
| "encontrar_movimentacao_local (Suc fuel) ord H G_completo comunidades g =
     (case shuffle (nodes H) g of
        (lista_nos, g') \<Rightarrow>
          (case varredura ord H G_completo lista_nos (comunidades, False) of
             Inl e \<Rightarrow> Some (Inl e)
           | Inr st \<Rightarrow>
               if snd st then encontrar_movimentacao_local fuel ord H G_completo (fst st) g'
               else Some (Inr (fst st, g'))))"

subsection \<open>Refinement phase\<close>

text \<open>
  The loop over \<^verbatim>\<open>comunidades_locais.items()\<close>; the state is
  \<^verbatim>\<open>(particao_refinada_final, mapa_id, novo_id_comunidade)\<close>.
\<close>

fun atribuir ::
  "bool \<Rightarrow> int \<Rightarrow> partition \<Rightarrow> partition \<times> (int \<times> int) list \<times> int \<Rightarrow>
   partition \<times> (int \<times> int) list \<times> int" where
  "atribuir dividida id_comunidade [] st = st"
| "atribuir dividida id_comunidade (p # rest) (final, mapa_id, novo_id) =
     (if dividida
      then (case map_of mapa_id (snd p) of
              None \<Rightarrow>
                atribuir dividida id_comunidade rest
                  (AList.update (fst p) novo_id final,
                   AList.update (snd p) novo_id mapa_id, novo_id + 1)
            | Some i \<Rightarrow>
                atribuir dividida id_comunidade rest
                  (AList.update (fst p) i final, mapa_id, novo_id))
      else atribuir dividida id_comunidade rest
             (AList.update (fst p) id_comunidade final, mapa_id, novo_id))"

text \<open>\<^verbatim>\<open>for no in nos_comunidade: particao_unica[no] = no\<close>.\<close>

definition desmontar :: "partition \<Rightarrow> int list \<Rightarrow> partition" where
  "desmontar particao_alvo nos_comunidade =
     fold (\<lambda>no p. AList.update no no p) nos_comunidade particao_alvo"

text \<open>
  The loop over \<^verbatim>\<open>ids_comunidades\<close>; the state is
  \<^verbatim>\<open>(particao_refinada_final, novo_id_comunidade)\<close> and the generator.
\<close>

fun refinar_laco ::
  "nat \<Rightarrow> set_order \<Rightarrow> graph \<Rightarrow> partition \<Rightarrow> int list \<Rightarrow> partition \<times> int \<times> rng \<Rightarrow>
   (error + partition \<times> int \<times> rng) option" where
  "refinar_laco fuel ord G particao_alvo [] st = Some (Inr st)"
| "refinar_laco fuel ord G particao_alvo (id_comunidade # ids) (final, novo_id, g) =
     (let nos_comunidade = nos_da_comunidade particao_alvo id_comunidade in
      if length nos_comunidade \<le> 1
      then refinar_laco fuel ord G particao_alvo ids (final, novo_id, g)
      else
        let subgrafo = subgraph G nos_comunidade;
            particao_unica = desmontar particao_alvo nos_comunidade
        in rbind (encontrar_movimentacao_local fuel ord subgrafo G particao_unica g) (\<lambda>r.
             let comunidades_locais = filter (\<lambda>p. fst p \<in> set nos_comunidade) (fst r);
                 dividida = (length (remdups (map snd comunidades_locais)) > 1);
                 st = atribuir dividida id_comunidade comunidades_locais (final, [], novo_id)
             in refinar_laco fuel ord G particao_alvo ids (fst st, snd (snd st), snd r)))"

definition refinar_particao ::
  "nat \<Rightarrow> set_order \<Rightarrow> graph \<Rightarrow> partition \<Rightarrow> rng \<Rightarrow> (error + partition \<times> rng) option" where
  "refinar_particao fuel ord G particao_alvo g =
     (let novo_id_comunidade =
            (if particao_alvo = [] then 0 else Max (set (map snd particao_alvo)) + 1);
          ids_comunidades = ord (map snd particao_alvo)
      in rbind (refinar_laco fuel ord G particao_alvo ids_comunidades
                  (particao_alvo, novo_id_comunidade, g))
           (\<lambda>st. Some (Inr (fst st, snd (snd st)))))"

subsection \<open>Aggregation phase\<close>

definition liga :: "int \<times> int \<times> real \<Rightarrow> int \<Rightarrow> int \<Rightarrow> bool" where
  "liga e a b \<longleftrightarrow> (fst e = a \<and> fst (snd e) = b) \<or> (fst e = b \<and> fst (snd e) = a)"

definition has_edge :: "graph \<Rightarrow> int \<Rightarrow> int \<Rightarrow> bool" where
  "has_edge G a b \<longleftrightarrow> (\<exists>e \<in> set (edges G). liga e a b)"

text \<open>\<^verbatim>\<open>G_agr[c_u][c_v]['weight'] += peso\<close> on the one edge between the two nodes.\<close>

fun somar_peso :: "(int \<times> int \<times> real) list \<Rightarrow> int \<Rightarrow> int \<Rightarrow> real \<Rightarrow> (int \<times> int \<times> real) list" where
  "somar_peso [] a b peso = []"
| "somar_peso (e # es) a b peso =
     (if liga e a b then (fst e, fst (snd e), snd (snd e) + peso) # es
      else e # somar_peso es a b peso)"

definition add_node :: "int list \<Rightarrow> int \<Rightarrow> int list" where
  "add_node ns n = (if n \<in> set ns then ns else ns @ [n])"

text \<open>\<^verbatim>\<open>G_agr.add_edge(c_u, c_v, weight=peso)\<close> for an edge that is not in the graph yet.\<close>

definition add_edge :: "graph \<Rightarrow> int \<Rightarrow> int \<Rightarrow> real \<Rightarrow> graph" where
  "add_edge G a b peso =
     \<lparr>nodes = add_node (add_node (nodes G) a) b, edges = edges G @ [(a, b, peso)]\<rparr>"

fun agrupar_arestas ::
  "partition \<Rightarrow> (int \<times> int \<times> real) list \<Rightarrow> graph \<Rightarrow> error + graph" where
  "agrupar_arestas particao [] G_agr = Inr G_agr"
| "agrupar_arestas particao (e # es) G_agr =
     ebind (lookup particao (fst e)) (\<lambda>c_u.
     ebind (lookup particao (fst (snd e))) (\<lambda>c_v.
       let peso = snd (snd e) in
       agrupar_arestas particao es
         (if has_edge G_agr c_u c_v
          then G_agr\<lparr>edges := somar_peso (edges G_agr) c_u c_v peso\<rparr>
          else add_edge G_agr c_u c_v peso)))"

definition agrupar_grafo :: "set_order \<Rightarrow> graph \<Rightarrow> partition \<Rightarrow> error + graph" where
  "agrupar_grafo ord G particao =
     agrupar_arestas particao (edges G) \<lparr>nodes = ord (map snd particao), edges = []\<rparr>"

subsection \<open>The multilevel loop\<close>

text \<open>\<^verbatim>\<open>{no: no for no in G.nodes()}\<close>.\<close>

definition particao_singular :: "graph \<Rightarrow> partition" where
  "particao_singular G = map (\<lambda>no. (no, no)) (nodes G)"

text \<open>
  The back-mapping loop of both algorithms:
  \<^verbatim>\<open>if id_comunidade in particao: particao_atual_mapeada[no_original] = particao[id_comunidade]\<close>.
\<close>

fun mapear_laco :: "partition \<Rightarrow> partition \<Rightarrow> partition \<Rightarrow> partition" where
  "mapear_laco particao [] particao_atual_mapeada = particao_atual_mapeada"
| "mapear_laco particao (p # rest) particao_atual_mapeada =
     (case map_of particao (snd p) of
        None \<Rightarrow> mapear_laco particao rest particao_atual_mapeada
      | Some c \<Rightarrow> mapear_laco particao rest (AList.update (fst p) c particao_atual_mapeada))"

definition mapear_particao :: "partition \<Rightarrow> partition \<Rightarrow> partition" where
  "mapear_particao no_em_mapa_comunidade particao = mapear_laco particao no_em_mapa_comunidade []"

record estado =
  grafo :: graph
  no_em_mapa_comunidade :: partition
  melhor_particao_geral :: partition
  melhor_modularidade :: real
  modularidades_por_nivel :: "real list"

text \<open>
  Phases C and D of one level, shared by both algorithms: evaluate the mapped partition
  on the original graph, stop or accept, aggregate, stop or go on. \<open>Inl\<close> is the
  returned pair, \<open>Inr\<close> the state of the next iteration.
\<close>

definition avaliar_nivel ::
  "set_order \<Rightarrow> graph \<Rightarrow> estado \<Rightarrow> partition \<Rightarrow>
   error + ((partition \<times> real list) + estado)" where
  "avaliar_nivel ord G_orig s particao =
     (let particao_atual_mapeada = mapear_particao (no_em_mapa_comunidade s) particao in
      ebind (calcular_modularidade G_orig particao_atual_mapeada) (\<lambda>modularidade_atual.
        if modularidade_atual \<le> melhor_modularidade s
        then Inr (Inl (melhor_particao_geral s, modularidades_por_nivel s))
        else
          let historico = modularidades_por_nivel s @ [modularidade_atual] in
          ebind (agrupar_grafo ord (grafo s) particao) (\<lambda>G_novo.
            if length (nodes G_novo) = length (nodes (grafo s))
            then Inr (Inl (particao_atual_mapeada, historico))
            else Inr (Inr \<lparr>grafo = G_novo,
                           no_em_mapa_comunidade = particao_atual_mapeada,
                           melhor_particao_geral = particao_atual_mapeada,
                           melhor_modularidade = modularidade_atual,
                           modularidades_por_nivel = historico\<rparr>))))"

fun leiden_laco ::
  "nat \<Rightarrow> nat \<Rightarrow> set_order \<Rightarrow> graph \<Rightarrow> estado \<Rightarrow> rng \<Rightarrow>
   (error + (partition \<times> real list) \<times> rng) option" where
  "leiden_laco 0 fuel ord G_orig s g = None"
| "leiden_laco (Suc niveis) fuel ord G_orig s g =
     rbind (encontrar_movimentacao_local fuel ord (grafo s) (grafo s)
              (particao_singular (grafo s)) g) (\<lambda>r1.
     rbind (refinar_particao fuel ord (grafo s) (fst r1) (snd r1)) (\<lambda>r2.
       case avaliar_nivel ord G_orig s (fst r2) of
         Inl e \<Rightarrow> Some (Inl e)
       | Inr (Inl resultado) \<Rightarrow> Some (Inr (resultado, snd r2))
       | Inr (Inr s') \<Rightarrow> leiden_laco niveis fuel ord G_orig s' (snd r2)))"

definition estado_inicial :: "graph \<Rightarrow> estado" where
  "estado_inicial G_orig =
     \<lparr>grafo = G_orig,
      no_em_mapa_comunidade = particao_singular G_orig,
      melhor_particao_geral = particao_singular G_orig,
      melhor_modularidade = - 1,
      modularidades_por_nivel = []\<rparr>"

definition leiden ::
  "nat \<Rightarrow> nat \<Rightarrow> set_order \<Rightarrow> graph \<Rightarrow> rng \<Rightarrow> (error + (partition \<times> real list) \<times> rng) option" where
  "leiden niveis fuel ord G_orig g = leiden_laco niveis fuel ord G_orig (estado_inicial G_orig) g"

fun louvain_laco ::
  "nat \<Rightarrow> nat \<Rightarrow> set_order \<Rightarrow> graph \<Rightarrow> estado \<Rightarrow> rng \<Rightarrow>
   (error + (partition \<times> real list) \<times> rng) option" where
  "louvain_laco 0 fuel ord G_orig s g = None"
| "louvain_laco (Suc niveis) fuel ord G_orig s g =
     rbind (encontrar_movimentacao_local fuel ord (grafo s) (grafo s)
              (particao_singular (grafo s)) g) (\<lambda>r1.
       case avaliar_nivel ord G_orig s (fst r1) of
         Inl e \<Rightarrow> Some (Inl e)
       | Inr (Inl resultado) \<Rightarrow> Some (Inr (resultado, snd r1))
       | Inr (Inr s') \<Rightarrow> louvain_laco niveis fuel ord G_orig s' (snd r1))"

definition louvain ::
  "nat \<Rightarrow> nat \<Rightarrow> set_order \<Rightarrow> graph \<Rightarrow> rng \<Rightarrow> (error + (partition \<times> real list) \<times> rng) option" where
  "louvain niveis fuel ord G_orig g = louvain_laco niveis fuel ord G_orig (estado_inicial G_orig) g"



text \<open>A weighted triangle.\<close>

definition triangulo :: graph where
  "triangulo = \<lparr>nodes = [0, 1, 2], edges = [(0, 1, 1), (1, 2, 2), (0, 2, 1 / 2)]\<rparr>"

text \<open>A path of five nodes, and three states of the generator.\<close>

definition caminho5 :: graph where
  "caminho5 = \<lparr>nodes = [0, 1, 2, 3, 4], edges = [(0, 1, 1), (1, 2, 1), (2, 3, 1), (3, 4, 1)]\<rparr>"

definition sorteio_zero :: rng where
  "sorteio_zero = (\<lambda>i. 0)"

definition sorteio_tres :: rng where
  "sorteio_tres = (\<lambda>i. if i = 0 then 3 else 0)"


text \<open>What a run returns, the state of the generator left out.\<close>

definition particao_final :: "(error + 'a \<times> rng) option \<Rightarrow> (error + 'a) option" where
  "particao_final r = map_option (map_sum id fst) r"

subsection \<open>Invariants of the refinement loops\<close>

text \<open>
  Every identifier in use is below the first fresh one (\<open>abaixo\<close>); the refined partition
  keeps the keys of the input, gives every node its input community or a fresh identifier,
  and gives a fresh identifier only to nodes of one input community (\<open>inv_refino\<close>);
  within the loop over one community, the identifiers minted since it started are held
  only by nodes of that community (\<open>inv_atribuir\<close>).
\<close>

definition inv_refino :: "partition \<Rightarrow> int \<Rightarrow> int \<Rightarrow> partition \<Rightarrow> bool" where
  "inv_refino P n0 novo final \<longleftrightarrow>
     n0 \<le> novo \<and> fst ` set final = fst ` set P \<and>
     (\<forall>n x. map_of final n = Some x \<longrightarrow> map_of P n = Some x \<or> (n0 \<le> x \<and> x < novo)) \<and>
     (\<forall>n1 n2 x. n0 \<le> x \<longrightarrow> map_of final n1 = Some x \<longrightarrow> map_of final n2 = Some x \<longrightarrow>
        map_of P n1 = map_of P n2)"

definition inv_atribuir ::
  "partition \<Rightarrow> int \<Rightarrow> int \<Rightarrow> int \<Rightarrow> partition \<Rightarrow> (int \<times> int) list \<Rightarrow> bool" where
  "inv_atribuir P idc lo novo final mapa \<longleftrightarrow>
     lo \<le> novo \<and>
     (\<forall>k i. map_of mapa k = Some i \<longrightarrow> lo \<le> i \<and> i < novo) \<and>
     (\<forall>n x. lo \<le> x \<longrightarrow> map_of final n = Some x \<longrightarrow> map_of P n = Some idc)"

definition abaixo :: "partition \<Rightarrow> int \<Rightarrow> bool" where
  "abaixo P n0 \<longleftrightarrow> (\<forall>n c. map_of P n = Some c \<longrightarrow> c < n0)"


text \<open>Two disjoint edges.\<close>

definition duas_arestas :: graph where
  "duas_arestas = \<lparr>nodes = [0, 1, 2, 3], edges = [(0, 1, 1), (2, 3, 1)]\<rparr>"

subsection \<open>Invariant of the level mapping\<close>

text \<open>
  The recorded best partition and the standing level mapping are defined on exactly the
  nodes of the original graph, and every tracked identifier is a node of the working graph.
\<close>

definition inv_mapa :: "graph \<Rightarrow> estado \<Rightarrow> bool" where
  "inv_mapa G_orig s \<longleftrightarrow>
     distinct (map fst (melhor_particao_geral s)) \<and>
     fst ` set (melhor_particao_geral s) = set (nodes G_orig) \<and>
     fst ` set (no_em_mapa_comunidade s) = set (nodes G_orig) \<and>
     snd ` set (no_em_mapa_comunidade s) \<subseteq> set (nodes (grafo s))"

subsection \<open>Community aggregates and the modularity potential\<close>

text \<open>
  The aggregates of a community under a partition read as a map: the weight of its
  internal edges, the sum of the weighted degrees of its members, the weight a node sends
  into it, and the weight of the self-loop of a node. \<open>ganho\<close> is the value
  \<^verbatim>\<open>calc_delta_q\<close> computes from them, and \<open>potencial\<close> the modularity summed over a
  fixed set of identifiers.
\<close>

definition peso_interno :: "graph \<Rightarrow> (int \<rightharpoonup> int) \<Rightarrow> int \<Rightarrow> real" where
  "peso_interno G f c =
     (\<Sum>e\<leftarrow>edges G. if f (fst e) = Some c \<and> f (fst (snd e)) = Some c then snd (snd e) else 0)"

definition grau_comunidade :: "graph \<Rightarrow> (int \<rightharpoonup> int) \<Rightarrow> int \<Rightarrow> real" where
  "grau_comunidade G f c =
     (\<Sum>e\<leftarrow>edges G. (if f (fst e) = Some c then snd (snd e) else 0) +
                      (if f (fst (snd e)) = Some c then snd (snd e) else 0))"

definition peso_laco :: "graph \<Rightarrow> int \<Rightarrow> real" where
  "peso_laco G n = (\<Sum>e\<leftarrow>edges G. if fst e = n \<and> fst (snd e) = n then snd (snd e) else 0)"

definition peso_para :: "graph \<Rightarrow> (int \<rightharpoonup> int) \<Rightarrow> int \<Rightarrow> int \<Rightarrow> real" where
  "peso_para G f n c =
     (\<Sum>e\<leftarrow>edges G. if fst e = n then (if f (fst (snd e)) = Some c then snd (snd e) else 0)
                      else if fst (snd e) = n then (if f (fst e) = Some c then snd (snd e) else 0)
                      else 0)"

definition potencial :: "graph \<Rightarrow> int set \<Rightarrow> (int \<rightharpoonup> int) \<Rightarrow> real" where
  "potencial G C f =
     (\<Sum>c \<in> C. peso_interno G f c / size_graph G -
                (grau_comunidade G f c / (2 * size_graph G))\<^sup>2)"

definition ganho :: "graph \<Rightarrow> (int \<rightharpoonup> int) \<Rightarrow> int \<Rightarrow> int \<Rightarrow> int \<Rightarrow> real" where
  "ganho G f n a b =
     (let m = size_graph G; k = weighted_degree G n in
      ((peso_interno G f a - peso_para G f n a) / m -
         ((grau_comunidade G f a - k) / (2 * m))\<^sup>2) +
      ((peso_interno G f b + peso_para G f n b) / m -
         ((grau_comunidade G f b + k) / (2 * m))\<^sup>2) -
      ((peso_interno G f a / m - (grau_comunidade G f a / (2 * m))\<^sup>2) +
       (peso_interno G f b / m - (grau_comunidade G f b / (2 * m))\<^sup>2)))"

definition delta :: "graph \<Rightarrow> (int \<rightharpoonup> int) \<Rightarrow> int \<Rightarrow> int \<Rightarrow> int \<Rightarrow> real" where
  "delta G f n a c = (if size_graph G = 0 then 0 else ganho G f n a c)"

subsection \<open>Invariants of the local moving and of the levels\<close>

text \<open>
  A graph is closed when its nodes are distinct and its edges join nodes of it; the
  candidate graph of a local moving has its nodes and edge ends in the reference graph;
  the partition being moved has the nodes of the reference graph as its distinct keys and
  its values in a fixed set. The history is strictly increasing and bounded by the
  recorded best modularity.
\<close>

definition grafo_fechado :: "graph \<Rightarrow> bool" where
  "grafo_fechado G \<longleftrightarrow>
     distinct (nodes G) \<and>
     (\<forall>e \<in> set (edges G). fst e \<in> set (nodes G) \<and> fst (snd e) \<in> set (nodes G))"

definition subgrafo_de :: "graph \<Rightarrow> graph \<Rightarrow> bool" where
  "subgrafo_de H G \<longleftrightarrow>
     set (nodes H) \<subseteq> set (nodes G) \<and>
     (\<forall>e \<in> set (edges H). fst e \<in> set (nodes G) \<and> fst (snd e) \<in> set (nodes G))"

definition inv_local :: "graph \<Rightarrow> int set \<Rightarrow> partition \<Rightarrow> bool" where
  "inv_local G C com \<longleftrightarrow>
     distinct (map fst com) \<and> fst ` set com = set (nodes G) \<and> snd ` set com \<subseteq> C"

definition agregado_ok :: "graph \<Rightarrow> bool" where
  "agregado_ok G \<longleftrightarrow>
     (\<forall>e \<in> set (edges G). fst e \<in> set (nodes G) \<and> fst (snd e) \<in> set (nodes G)) \<and>
     positive_weights G"

definition inv_historico :: "estado \<Rightarrow> bool" where
  "inv_historico s \<longleftrightarrow>
     sorted_wrt (<) (modularidades_por_nivel s) \<and>
     (\<forall>x \<in> set (modularidades_por_nivel s). x \<le> melhor_modularidade s)"

definition inv_nivel :: "graph \<Rightarrow> estado \<Rightarrow> bool" where
  "inv_nivel G_orig s \<longleftrightarrow>
     inv_mapa G_orig s \<and> grafo_fechado (grafo s) \<and> positive_weights (grafo s)"

text \<open>A cycle of four nodes and a separate heavy edge.\<close>

definition ciclo_e_aresta :: graph where
  "ciclo_e_aresta = \<lparr>nodes = [0, 1, 2, 3, 4, 5],
     edges = [(0, 1, 1), (1, 2, 1), (2, 3, 1), (3, 0, 1), (4, 5, 5)]\<rparr>"

subsection \<open>The back-mapping of a level\<close>



text \<open>
  The partitions and the states that the two loops work on. \<open>particao_do_nivel ord s P\<close>:
  \<open>P\<close> is the level partition that one iteration computes in the state \<open>s\<close>, from
  some state of the generator: the result of the local moving on the working graph
  (\<^verbatim>\<open>louvain\<close>), or its refinement (\<^verbatim>\<open>leiden\<close>). \<open>nivel_alcancado ord G_orig s\<close>:
  \<open>s\<close> is the state in which an iteration of a run on \<open>G_orig\<close> starts: the state
  set up before the loop, or the state that \<open>avaliar_nivel\<close> hands to the next
  iteration.
\<close>

inductive particao_do_nivel :: "set_order \<Rightarrow> estado \<Rightarrow> partition \<Rightarrow> bool"
  for ord :: set_order and s :: estado where
  nivel_louvain:
    "encontrar_movimentacao_local fuel ord (grafo s) (grafo s)
       (particao_singular (grafo s)) g = Some (Inr r1) \<Longrightarrow>
     particao_do_nivel ord s (fst r1)"
| nivel_leiden:
    "encontrar_movimentacao_local fuel ord (grafo s) (grafo s)
       (particao_singular (grafo s)) g = Some (Inr r1) \<Longrightarrow>
     refinar_particao fuel ord (grafo s) (fst r1) (snd r1) = Some (Inr r2) \<Longrightarrow>
     particao_do_nivel ord s (fst r2)"

inductive nivel_alcancado :: "set_order \<Rightarrow> graph \<Rightarrow> estado \<Rightarrow> bool"
  for ord :: set_order and G_orig :: graph where
  primeiro_nivel: "nivel_alcancado ord G_orig (estado_inicial G_orig)"
| proximo_nivel:
    "nivel_alcancado ord G_orig s \<Longrightarrow> particao_do_nivel ord s particao \<Longrightarrow>
     avaliar_nivel ord G_orig s particao = Inr (Inr s') \<Longrightarrow>
     nivel_alcancado ord G_orig s'"


subsection \<open>Double precision\<close>

text \<open>
  A Python float is a binary64 number. \<open>arred x\<close> is the number of the format nearest
  to \<open>x\<close>, a tie going to the even significand, for \<open>x\<close> in the normal range (no
  overflow, no subnormal result): \<open>expoente x\<close> is the \<open>e\<close> with
  \<open>2\<^sup>e \<le> x < 2\<^sup>e\<^sup>+\<^sup>1\<close> for a positive \<open>x\<close>, and the significand is the integer
  nearest to \<open>x / 2\<^sup>e\<^sup>-\<^sup>5\<^sup>2\<close>, of 53 bits. Every arithmetic operation on floats returns
  the rounded exact result.
\<close>

definition expoente :: "real \<Rightarrow> int" where
  "expoente x = (if 1 \<le> x then bitlen \<lfloor>x\<rfloor> - 1 else - bitlen (\<lceil>1 / x\<rceil> - 1))"

definition inteiro_par :: "real \<Rightarrow> int" where
  "inteiro_par q =
     (let n = \<lfloor>q\<rfloor>; r = q - of_int n in
      if r < 1 / 2 then n else if 1 / 2 < r then n + 1 else if even n then n else n + 1)"

definition arred :: "real \<Rightarrow> real" where
  "arred x =
     (if x = 0 then 0
      else let e = expoente \<bar>x\<bar> - 52 in
        if 0 \<le> e then sgn x * (of_int (inteiro_par (\<bar>x\<bar> / 2 ^ nat e)) * 2 ^ nat e)
        else sgn x * (of_int (inteiro_par (\<bar>x\<bar> * 2 ^ nat (- e))) / 2 ^ nat (- e)))"

text \<open>
  The built-in \<^verbatim>\<open>sum\<close>: the items are added one by one, from the left, starting at 0
  (the plain sum of the interpreter up to version 3.11; later versions carry a
  compensation term along).
\<close>

definition soma_float :: "real list \<Rightarrow> real" where
  "soma_float xs = foldl (\<lambda>s x. arred (s + x)) 0 xs"

text \<open>
  The weighted degree as the library computes it:
  \<^verbatim>\<open>sum(dd.get(weight, 1) for dd in nbrs.values()) + (n in nbrs and nbrs[n].get(weight, 1))\<close>.
  The neighbours are taken in the order of the edge list, which is the order of the
  adjacency of the library for a graph whose edges were added in that order.
\<close>

definition weighted_degree_float :: "graph \<Rightarrow> int \<Rightarrow> real" where
  "weighted_degree_float G n =
     arred (soma_float (map snd (adj_items G n)) +
            (case map_of (adj_items G n) n of None \<Rightarrow> 0 | Some w \<Rightarrow> w))"

text \<open>
  \<^verbatim>\<open>G.size(weight='weight')\<close> as the library computes it:
  \<^verbatim>\<open>sum(d for v, d in self.degree(weight=weight)) / 2\<close>.
\<close>

definition size_graph_float :: "graph \<Rightarrow> real" where
  "size_graph_float G = arred (soma_float (map (weighted_degree_float G) (nodes G)) / 2)"

text \<open>The aggregation phase with the addition of \<^verbatim>\<open>+=\<close> rounded.\<close>

fun somar_peso_float ::
  "(int \<times> int \<times> real) list \<Rightarrow> int \<Rightarrow> int \<Rightarrow> real \<Rightarrow> (int \<times> int \<times> real) list" where
  "somar_peso_float [] a b peso = []"
| "somar_peso_float (e # es) a b peso =
     (if liga e a b then (fst e, fst (snd e), arred (snd (snd e) + peso)) # es
      else e # somar_peso_float es a b peso)"

fun agrupar_arestas_float ::
  "partition \<Rightarrow> (int \<times> int \<times> real) list \<Rightarrow> graph \<Rightarrow> error + graph" where
  "agrupar_arestas_float particao [] G_agr = Inr G_agr"
| "agrupar_arestas_float particao (e # es) G_agr =
     ebind (lookup particao (fst e)) (\<lambda>c_u.
     ebind (lookup particao (fst (snd e))) (\<lambda>c_v.
       let peso = snd (snd e) in
       agrupar_arestas_float particao es
         (if has_edge G_agr c_u c_v
          then G_agr\<lparr>edges := somar_peso_float (edges G_agr) c_u c_v peso\<rparr>
          else add_edge G_agr c_u c_v peso)))"

definition agrupar_grafo_float :: "set_order \<Rightarrow> graph \<Rightarrow> partition \<Rightarrow> error + graph" where
  "agrupar_grafo_float ord G particao =
     agrupar_arestas_float particao (edges G) \<lparr>nodes = ord (map snd particao), edges = []\<rparr>"

text \<open>
  The path 0 - 1 - 2 - 3 with the weights \<^verbatim>\<open>0.1\<close>, \<^verbatim>\<open>0.2\<close>, \<^verbatim>\<open>0.3\<close>, each the float
  that the literal denotes.
\<close>

definition caminho_decimal :: graph where
  "caminho_decimal =
     \<lparr>nodes = [0, 1, 2, 3],
      edges = [(0, 1, arred (1 / 10)), (1, 2, arred (2 / 10)), (2, 3, arred (3 / 10))]\<rparr>"

text \<open>The path 0 - 1 - 2 - 3 - 4 with the weights 1/10, 1/5, 1/5, 1/10.\<close>

definition caminho_simetrico :: graph where
  "caminho_simetrico =
     \<lparr>nodes = [0, 1, 2, 3, 4],
      edges = [(0, 1, 1 / 10), (1, 2, 1 / 5), (2, 3, 1 / 5), (3, 4, 1 / 10)]\<rparr>"

section \<open>Properties\<close>

subsection \<open>Basic facts\<close>

lemma ebind_Inr [simp]: "ebind (Inr x) f = f x"
  by (simp add: ebind_def)

lemma ebind_Inl [simp]: "ebind (Inl e) f = Inl e"
  by (simp add: ebind_def)

lemma soma_graus_ok:
  "set ns \<subseteq> set (nodes G) \<Longrightarrow> soma_graus G ns = Inr (\<Sum>n\<leftarrow>ns. weighted_degree G n)"
  by (induction ns) (simp_all add: degree_def)

lemma set_nos_da_comunidade: "set (nos_da_comunidade P c) = {n. (n, c) \<in> set P}"
  by (auto simp: nos_da_comunidade_def image_iff)

lemma nos_da_comunidade_snoc:
  "nos_da_comunidade (P @ [p]) c =
     (if snd p = c then nos_da_comunidade P c @ [fst p] else nos_da_comunidade P c)"
  by (simp add: nos_da_comunidade_def)

lemma nos_da_comunidade_vazio: "c \<notin> snd ` set P \<Longrightarrow> nos_da_comunidade P c = []"
  by (induction P) (auto simp: nos_da_comunidade_def)

subsection \<open>Grouping a partition by community\<close>

lemma agrupar_snoc:
  "agrupar_por_comunidade (P @ [p]) = add_no (agrupar_por_comunidade P) p"
  by (simp add: agrupar_por_comunidade_def)

lemma agrupar_props:
  "distinct (map fst P) \<Longrightarrow>
     distinct (map fst (agrupar_por_comunidade P)) \<and>
     (\<forall>c. map_of (agrupar_por_comunidade P) c =
          (if c \<in> snd ` set P then Some (nos_da_comunidade P c) else None))"
proof (induction P rule: rev_induct)
  case Nil
  then show ?case by (simp add: agrupar_por_comunidade_def)
next
  case (snoc p P)
  then have IH1: "distinct (map fst (agrupar_por_comunidade P))"
    and IH2: "\<And>c. map_of (agrupar_por_comunidade P) c =
          (if c \<in> snd ` set P then Some (nos_da_comunidade P c) else None)"
    by simp_all
  from snoc.prems have fresh: "fst p \<notin> fst ` set P" by simp
  then have notin: "fst p \<notin> set (nos_da_comunidade P c)" for c
    by (auto simp: set_nos_da_comunidade image_iff)
  have d: "distinct (map fst (agrupar_por_comunidade (P @ [p])))"
    by (simp add: agrupar_snoc add_no_def distinct_update IH1)
  have m: "map_of (agrupar_por_comunidade (P @ [p])) c =
          (if c \<in> snd ` set (P @ [p]) then Some (nos_da_comunidade (P @ [p]) c) else None)" for c
  proof (cases "c = snd p")
    case False
    then show ?thesis
      by (auto simp: agrupar_snoc add_no_def update_conv' IH2 nos_da_comunidade_snoc)
  next
    case True
    show ?thesis
    proof (cases "snd p \<in> snd ` set P")
      case True
      with \<open>c = snd p\<close> notin [of "snd p"] show ?thesis
        by (simp add: agrupar_snoc add_no_def update_conv' IH2 nos_da_comunidade_snoc)
    next
      case False
      then have "nos_da_comunidade P (snd p) = []"
        by (simp add: nos_da_comunidade_vazio)
      with False \<open>c = snd p\<close> show ?thesis
        by (simp add: agrupar_snoc add_no_def update_conv' IH2 nos_da_comunidade_snoc)
    qed
  qed
  from d m show ?case by blast
qed

lemma agrupar_entries:
  assumes "distinct (map fst P)" "c \<in> set (agrupar_por_comunidade P)"
  shows "snd c = nos_da_comunidade P (fst c)" "fst c \<in> snd ` set P"
proof -
  from assms(1) have d: "distinct (map fst (agrupar_por_comunidade P))"
    and m: "\<And>k. map_of (agrupar_por_comunidade P) k =
          (if k \<in> snd ` set P then Some (nos_da_comunidade P k) else None)"
    using agrupar_props by blast+
  from d assms(2) have "map_of (agrupar_por_comunidade P) (fst c) = Some (snd c)"
    by (cases c) simp
  with m [of "fst c"] show "snd c = nos_da_comunidade P (fst c)" "fst c \<in> snd ` set P"
    by (auto split: if_splits)
qed

lemma agrupar_keys:
  assumes "distinct (map fst P)"
  shows "set (map fst (agrupar_por_comunidade P)) = snd ` set P"
proof -
  have "set (map fst (agrupar_por_comunidade P)) = dom (map_of (agrupar_por_comunidade P))"
    by (simp add: dom_map_of_conv_image_fst)
  also have "\<dots> = snd ` set P"
    using agrupar_props [OF assms] by (auto simp: dom_def)
  finally show ?thesis .
qed

lemma soma_contribuicoes_ok:
  "(\<forall>c \<in> set cs. set (snd c) \<subseteq> set (nodes G)) \<Longrightarrow>
   soma_contribuicoes G m cs t =
     Inr (t + (\<Sum>c\<leftarrow>cs. size_graph (subgraph G (snd c)) / m -
                 ((\<Sum>n\<leftarrow>snd c. weighted_degree G n) / (2 * m))\<^sup>2))"
  by (induction cs arbitrary: t) (simp_all add: soma_graus_ok Let_def algebra_simps)

lemma calcular_modularidade_spec:
  assumes "distinct (map fst P)" and "fst ` set P \<subseteq> set (nodes G)"
  shows "calcular_modularidade G P = Inr (modularity_spec G P)"
proof (cases "size_graph G = 0")
  case True
  then show ?thesis by (simp add: calcular_modularidade_def modularity_spec_def)
next
  case False
  let ?cs = "agrupar_por_comunidade P"
  let ?f = "\<lambda>k. contribuicao G P k"
  have sub: "\<forall>c \<in> set ?cs. set (snd c) \<subseteq> set (nodes G)"
    using assms agrupar_entries(1) [OF assms(1)] by (force simp: set_nos_da_comunidade)
  have "(\<Sum>c\<leftarrow>?cs. size_graph (subgraph G (snd c)) / size_graph G -
                 ((\<Sum>n\<leftarrow>snd c. weighted_degree G n) / (2 * size_graph G))\<^sup>2)
        = (\<Sum>c\<leftarrow>?cs. ?f (fst c))"
    by (rule arg_cong [where f = sum_list], rule map_cong)
       (simp_all add: contribuicao_def agrupar_entries(1) [OF assms(1), symmetric])
  also have "\<dots> = (\<Sum>k\<leftarrow>map fst ?cs. ?f k)"
    by (simp add: comp_def)
  also have "\<dots> = (\<Sum>k \<in> set (map fst ?cs). ?f k)"
    using agrupar_props [OF assms(1)] by (intro sum_list_distinct_conv_sum_set) blast
  also have "\<dots> = (\<Sum>k \<in> snd ` set P. ?f k)"
    by (simp only: agrupar_keys [OF assms(1)])
  finally show ?thesis
    using False
    by (simp add: calcular_modularidade_def modularity_spec_def soma_contribuicoes_ok [OF sub])
qed

subsection \<open>Modularity of a graph without weight\<close>

text \<open>
  Claim C9. On a graph whose total edge weight is zero, \<open>calcular_modularidade\<close> returns
  \<open>0.0\<close> for every partition, whatever it maps; it raises nothing.
\<close>

theorem modularidade_zero:
  "size_graph G = 0 \<Longrightarrow> calcular_modularidade G P = Inr 0"
  by (simp add: calcular_modularidade_def)

theorem modularidade_zero_witness:
  "size_graph grafo_sem_arestas = 0 \<and>
   calcular_modularidade grafo_sem_arestas [(0, 5), (1, 5), (7, 2)] = Inr 0"
proof -
  have h: "size_graph grafo_sem_arestas = 0"
    by (simp add: size_graph_def grafo_sem_arestas_def)
  from h modularidade_zero [OF h, of "[(0, 5), (1, 5), (7, 2)]"] show ?thesis by simp
qed

subsection \<open>Modularity of a partial partition\<close>

text \<open>
  Claim C10. A partition that maps only some of the nodes of the graph is accepted:
  \<open>calcular_modularidade\<close> raises nothing and returns the sum, over the communities
  formed by the mapped nodes, of their contributions (\<open>0.0\<close> on a graph without
  weight); a node the partition does not map contributes to no community.
\<close>

theorem modularidade_particao_parcial:
  assumes "distinct (map fst P)" and "fst ` set P \<subseteq> set (nodes G)"
  shows "calcular_modularidade G P =
           Inr (if size_graph G = 0 then 0
                else (\<Sum>c \<in> snd ` set P.
                        size_graph (subgraph G (nos_da_comunidade P c)) / size_graph G -
                        ((\<Sum>n\<leftarrow>nos_da_comunidade P c. weighted_degree G n) /
                           (2 * size_graph G))\<^sup>2))"
  using calcular_modularidade_spec [OF assms]
  by (simp add: modularity_spec_def contribuicao_def)

theorem modularidade_particao_parcial_witness:
  "distinct (map fst [(1, 4 :: int)]) \<and> fst ` set [(1, 4)] \<subseteq> set (nodes grafo_com_laco) \<and>
   calcular_modularidade grafo_com_laco [(1, 4)] = Inr (- 1 / 16)"
proof -
  have h1: "distinct (map fst [(1 :: int, 4 :: int)])" by simp
  have h2: "fst ` set [(1 :: int, 4 :: int)] \<subseteq> set (nodes grafo_com_laco)"
    by (simp add: grafo_com_laco_def)
  from modularidade_particao_parcial [OF h1 h2] h1 h2 show ?thesis
    by (simp add: grafo_com_laco_def size_graph_def subgraph_def nos_da_comunidade_def
        weighted_degree_def power2_eq_square)
qed

subsection \<open>The incremental gain on a node with a self-loop\<close>

text \<open>
  Claim C1. Moving node 0 of \<open>grafo_com_laco\<close> from its own community to the community
  of node 1 raises the modularity from \<open>-1/8\<close> to \<open>0\<close>, a gain of \<open>1/8\<close>, while
  \<open>calc_delta_q\<close> returns \<open>-3/8\<close> for this move: the weight of the self-loop of the
  moved node is taken out of the community it leaves and not put into the one it joins.
\<close>

theorem delta_q_com_laco:
  "calcular_modularidade grafo_com_laco [(0, 0), (1, 1)] = Inr (- 1 / 8) \<and>
   calcular_modularidade grafo_com_laco (AList.update 0 1 [(0, 0), (1, 1)]) = Inr 0 \<and>
   calc_delta_q grafo_com_laco [(0, 0), (1, 1)] 0 1 = Inr (- 3 / 8)"
  by (simp add: grafo_com_laco_def calcular_modularidade_def agrupar_por_comunidade_def
      add_no_def calc_delta_q_def calc_propriedades_def nos_da_comunidade_def lookup_def
      adj_def adj_items_def size_graph_def subgraph_def degree_def weighted_degree_def
      power2_eq_square)

subsection \<open>Back-mapping\<close>

lemma map_of_mapear_laco:
  "distinct (map fst xs) \<Longrightarrow>
   map_of (mapear_laco P xs acc) n =
     (case map_of xs n of
        None \<Rightarrow> map_of acc n
      | Some i \<Rightarrow> (case map_of P i of None \<Rightarrow> map_of acc n | Some c \<Rightarrow> Some c))"
proof (induction xs arbitrary: acc)
  case Nil
  then show ?case by simp
next
  case (Cons p xs)
  then have d: "distinct (map fst xs)" and f: "fst p \<notin> fst ` set xs" by simp_all
  from f have none: "n = fst p \<Longrightarrow> map_of xs n = None"
    by (simp add: map_of_eq_None_iff)
  show ?case
  proof (cases "map_of P (snd p)")
    case None
    with Cons.IH [OF d] none show ?thesis
      by (cases p) (auto split: option.splits)
  next
    case (Some c)
    with Cons.IH [OF d] none show ?thesis
      by (cases p) (auto simp: update_conv' split: option.splits)
  qed
qed

text \<open>
  What the back-mapping loop computes: an original node is mapped to the community that
  the level partition gives to its tracked identifier.
\<close>

lemma mapear_particao_lookup:
  "distinct (map fst no_em_mapa) \<Longrightarrow>
   map_of (mapear_particao no_em_mapa particao) n =
     (case map_of no_em_mapa n of None \<Rightarrow> None | Some i \<Rightarrow> map_of particao i)"
  by (simp add: mapear_particao_def map_of_mapear_laco split: option.splits)

subsection \<open>Aggregation\<close>

lemma soma_somar_peso:
  "\<exists>e \<in> set es. liga e a b \<Longrightarrow>
   (\<Sum>e\<leftarrow>somar_peso es a b p. snd (snd e)) = (\<Sum>e\<leftarrow>es. snd (snd e)) + p"
  by (induction es) auto

lemma size_graph_somar:
  "has_edge G a b \<Longrightarrow> size_graph (G\<lparr>edges := somar_peso (edges G) a b p\<rparr>) = size_graph G + p"
  by (simp add: has_edge_def size_graph_def soma_somar_peso)

lemma size_graph_add_edge: "size_graph (add_edge G a b p) = size_graph G + p"
  by (simp add: add_edge_def size_graph_def)

lemma size_agrupar_arestas:
  "agrupar_arestas P es G0 = Inr G' \<Longrightarrow>
   size_graph G' = size_graph G0 + (\<Sum>e\<leftarrow>es. snd (snd e))"
proof (induction es arbitrary: G0)
  case Nil
  then show ?case by simp
next
  case (Cons e es)
  from Cons.prems obtain cu cv where
    cu: "lookup P (fst e) = Inr cu" and cv: "lookup P (fst (snd e)) = Inr cv"
    by (cases "lookup P (fst e)"; cases "lookup P (fst (snd e))") simp_all
  let ?G1 = "if has_edge G0 cu cv
             then G0\<lparr>edges := somar_peso (edges G0) cu cv (snd (snd e))\<rparr>
             else add_edge G0 cu cv (snd (snd e))"
  from Cons.prems cu cv have "agrupar_arestas P es ?G1 = Inr G'"
    by (simp add: Let_def)
  from Cons.IH [OF this] show ?case
    by (simp add: size_graph_somar size_graph_add_edge)
qed

lemma lookup_ok: "k \<in> fst ` set P \<Longrightarrow> \<exists>c. lookup P k = Inr c"
  by (cases "map_of P k") (auto simp: lookup_def map_of_eq_None_iff)

lemma agrupar_arestas_ok:
  "\<forall>e \<in> set es. fst e \<in> fst ` set P \<and> fst (snd e) \<in> fst ` set P \<Longrightarrow>
   \<exists>G'. agrupar_arestas P es G0 = Inr G'"
proof (induction es arbitrary: G0)
  case Nil
  then show ?case by simp
next
  case (Cons e es)
  then obtain cu cv where
    cu: "lookup P (fst e) = Inr cu" and cv: "lookup P (fst (snd e)) = Inr cv"
    using lookup_ok [of "fst e" P] lookup_ok [of "fst (snd e)" P] by auto
  from Cons.prems have "\<forall>e \<in> set es. fst e \<in> fst ` set P \<and> fst (snd e) \<in> fst ` set P"
    by simp
  from Cons.IH [OF this] cu cv show ?case
    by (simp add: Let_def)
qed

text \<open>
  The rounding on known values: the floats of the literals \<^verbatim>\<open>0.1\<close> and \<^verbatim>\<open>0.3\<close>, the
  sum \<^verbatim>\<open>0.1 + 0.2 = 0.30000000000000004\<close>, a number of the format, and two ties.
\<close>

lemma arred_exemplos:
  "arred (1 / 10) = 3602879701896397 / 2 ^ 55"
  "arred (3 / 10) = 5404319552844595 / 2 ^ 54"
  "arred (arred (1 / 10) + arred (2 / 10)) = 1351079888211149 / 2 ^ 52"
  "arred (3 / 4) = 3 / 4"
  "arred (2 ^ 53 + 1) = 2 ^ 53"
  "arred (2 ^ 53 + 3) = 2 ^ 53 + 4"
  by (simp_all add: arred_def expoente_def inteiro_par_def Let_def compute_bitlen)

text \<open>
  Claim C6, as the specification states it, fails. The two totals are sums of floats
  taken in different orders, and they need not be the same float: on the path with the
  weights \<^verbatim>\<open>0.1\<close>, \<^verbatim>\<open>0.2\<close>, \<^verbatim>\<open>0.3\<close> and the partition \<open>{0}, {1, 2, 3}\<close> the total of the
  graph is \<^verbatim>\<open>0.6\<close> and the total of the aggregated graph is \<^verbatim>\<open>0.6000000000000001\<close>, one
  unit in the last place above.
\<close>

theorem agrupar_grafo_float_counterexample:
  "wf_graph caminho_decimal \<and>
   set (nodes caminho_decimal) \<subseteq> fst ` set [(0, 0), (1, 1), (2, 1), (3, 1 :: int)] \<and>
   size_graph_float caminho_decimal = 5404319552844595 / 2 ^ 53 \<and>
   agrupar_grafo_float remdups caminho_decimal [(0, 0), (1, 1), (2, 1), (3, 1)] =
     Inr \<lparr>nodes = [0, 1], edges = [(0, 1, arred (1 / 10)), (1, 1, 1 / 2)]\<rparr> \<and>
   size_graph_float \<lparr>nodes = [0, 1], edges = [(0, 1, arred (1 / 10)), (1, 1, 1 / 2)]\<rparr> =
     5404319552844596 / 2 ^ 53"
proof -
  have "wf_graph caminho_decimal"
    by (simp add: wf_graph_def caminho_decimal_def)
  moreover have "set (nodes caminho_decimal) \<subseteq> fst ` set [(0, 0), (1, 1), (2, 1), (3, 1 :: int)]"
    by (simp add: caminho_decimal_def)
  moreover have "size_graph_float caminho_decimal = 5404319552844595 / 2 ^ 53"
    by code_simp
  moreover have "agrupar_grafo_float remdups caminho_decimal [(0, 0), (1, 1), (2, 1), (3, 1)] =
     Inr \<lparr>nodes = [0, 1], edges = [(0, 1, arred (1 / 10)), (1, 1, 1 / 2)]\<rparr>"
    by code_simp
  moreover have
    "size_graph_float \<lparr>nodes = [0, 1], edges = [(0, 1, arred (1 / 10)), (1, 1, 1 / 2)]\<rparr> =
     5404319552844596 / 2 ^ 53"
    by code_simp
  ultimately show ?thesis by simp
qed

text \<open>
  Claim C6, amended. In exact arithmetic the aggregation conserves the total weight: for
  a partition that maps every node of the graph, \<open>agrupar_grafo\<close> returns a graph
  whose edge weights (a self-loop counted once) sum to the sum of the edge weights of the
  input graph, every weight of the input being added to exactly one aggregated edge.
\<close>

theorem agrupar_grafo_conserva_peso:
  assumes "wf_graph G" and "set (nodes G) \<subseteq> fst ` set P"
  shows "\<exists>G_agr. agrupar_grafo ord G P = Inr G_agr \<and> size_graph G_agr = size_graph G"
proof -
  from assms have "\<forall>e \<in> set (edges G). fst e \<in> fst ` set P \<and> fst (snd e) \<in> fst ` set P"
    by (auto simp: wf_graph_def)
  from agrupar_arestas_ok [OF this] obtain G_agr where
    r: "agrupar_arestas P (edges G) \<lparr>nodes = ord (map snd P), edges = []\<rparr> = Inr G_agr"
    by blast
  from size_agrupar_arestas [OF r] have "size_graph G_agr = size_graph G"
    by (simp add: size_graph_def)
  with r show ?thesis by (auto simp: agrupar_grafo_def)
qed

theorem agrupar_grafo_conserva_peso_witness:
  "wf_graph triangulo \<and> set (nodes triangulo) \<subseteq> fst ` set [(0, 0), (1, 0), (2, 2 :: int)] \<and>
   agrupar_grafo remdups triangulo [(0, 0), (1, 0), (2, 2)] =
     Inr \<lparr>nodes = [0, 2], edges = [(0, 0, 1), (0, 2, 5 / 2)]\<rparr> \<and>
   size_graph \<lparr>nodes = [0, 2], edges = [(0, 0, 1), (0, 2, 5 / 2)]\<rparr> = size_graph triangulo"
proof -
  have h1: "wf_graph triangulo" by (simp add: wf_graph_def triangulo_def)
  have h2: "set (nodes triangulo) \<subseteq> fst ` set [(0, 0), (1, 0), (2, 2 :: int)]"
    by (simp add: triangulo_def)
  have e: "agrupar_grafo remdups triangulo [(0, 0), (1, 0), (2, 2)] =
     Inr \<lparr>nodes = [0, 2], edges = [(0, 0, 1), (0, 2, 5 / 2)]\<rparr>"
    by (simp add: agrupar_grafo_def triangulo_def lookup_def has_edge_def liga_def add_edge_def
        add_node_def)
  from agrupar_grafo_conserva_peso [OF h1 h2, of remdups] h1 h2 e show ?thesis
    by auto
qed

subsection \<open>Local moving\<close>

lemma mset_shuffle_from:
  "i < length x \<Longrightarrow> mset (fst (shuffle_from i x g)) = mset x"
proof (induction i arbitrary: x g)
  case 0
  then show ?case by simp
next
  case (Suc i)
  let ?j = "g 0 mod (Suc i + 1)"
  let ?x = "x[Suc i := x ! ?j, ?j := x ! Suc i]"
  have "?j < Suc i + 1" by simp
  with Suc.prems have j: "?j < length x" by linarith
  have "mset ?x = mset x"
    using mset_swap [OF j Suc.prems] .
  moreover have "mset (fst (shuffle_from i ?x (\<lambda>k. g (Suc k)))) = mset ?x"
    using Suc.prems by (intro Suc.IH) simp
  ultimately show ?case by (simp add: randbelow_def)
qed

lemma mset_shuffle: "mset (fst (shuffle x g)) = mset x"
proof (cases x)
  case Nil
  then show ?thesis by (simp add: shuffle_def)
next
  case (Cons a as)
  then show ?thesis by (simp add: shuffle_def mset_shuffle_from)
qed

lemma set_shuffle: "set (fst (shuffle x g)) = set x"
  using mset_shuffle [of x g] by (metis set_mset_mset)

lemma visitar_no_flag:
  "visitar_no ord H G (c, b) no = Inr (c', b') \<Longrightarrow> b' \<or> (c' = c \<and> \<not> b)"
  by (auto simp: visitar_no_def ebind_def Let_def split: sum.splits if_splits)

lemma visitar_no_flag_indep:
  "visitar_no ord H G (c, False) no = Inr (c, False) \<Longrightarrow>
   visitar_no ord H G (c, b) no = Inr (c, b)"
  by (auto simp: visitar_no_def ebind_def Let_def split: sum.splits if_splits)

lemma varredura_True:
  "varredura ord H G ns (c, True) = Inr (c', b') \<Longrightarrow> b'"
proof (induction ns arbitrary: c)
  case Nil
  then show ?case by simp
next
  case (Cons no ns)
  then obtain c1 b1 where v: "visitar_no ord H G (c, True) no = Inr (c1, b1)"
    and r: "varredura ord H G ns (c1, b1) = Inr (c', b')"
    by (cases "visitar_no ord H G (c, True) no") (auto simp: ebind_def)
  from visitar_no_flag [OF v] have "b1" by simp
  with r Cons.IH show ?case by simp
qed

lemma varredura_sem_movimento:
  "varredura ord H G ns (c, False) = Inr (c', False) \<Longrightarrow>
   c' = c \<and> (\<forall>no \<in> set ns. visitar_no ord H G (c, False) no = Inr (c, False))"
proof (induction ns)
  case Nil
  then show ?case by simp
next
  case (Cons no ns)
  then obtain c1 b1 where v: "visitar_no ord H G (c, False) no = Inr (c1, b1)"
    and r: "varredura ord H G ns (c1, b1) = Inr (c', False)"
    by (cases "visitar_no ord H G (c, False) no") (auto simp: ebind_def)
  have "\<not> b1" using varredura_True [of ord H G ns c1 c' False] r by (cases b1) auto
  with visitar_no_flag [OF v] have "c1 = c" "b1 = False" by simp_all
  with v r Cons.IH show ?case by simp
qed

lemma varredura_parada:
  "\<forall>no \<in> set ns. visitar_no ord H G (c, False) no = Inr (c, False) \<Longrightarrow>
   varredura ord H G ns (c, False) = Inr (c, False)"
  by (induction ns) simp_all

lemma encontrar_ponto_fixo:
  "encontrar_movimentacao_local fuel ord H G P g = Some (Inr (P', g')) \<Longrightarrow>
   \<forall>no \<in> set (nodes H). visitar_no ord H G (P', False) no = Inr (P', False)"
proof (induction fuel arbitrary: P g)
  case 0
  then show ?case by simp
next
  case (Suc fuel)
  obtain l g1 where s: "shuffle (nodes H) g = (l, g1)" by (cases "shuffle (nodes H) g")
  with Suc.prems obtain c b where v: "varredura ord H G l (P, False) = Inr (c, b)"
    by (cases "varredura ord H G l (P, False)") auto
  show ?case
  proof (cases b)
    case True
    with Suc.prems s v have "encontrar_movimentacao_local fuel ord H G c g1 = Some (Inr (P', g'))"
      by simp
    from Suc.IH [OF this] show ?thesis .
  next
    case False
    with Suc.prems s v have "c = P'" by simp
    with v False varredura_sem_movimento [of ord H G l P P'] 
    have "\<forall>no \<in> set l. visitar_no ord H G (P', False) no = Inr (P', False)" by simp
    moreover have "set l = set (nodes H)"
      using set_shuffle [of "nodes H" g] s by simp
    ultimately show ?thesis by simp
  qed
qed


lemma particao_final_Some:
  "particao_final r = Some (Inr P) \<longleftrightarrow> (\<exists>g. r = Some (Inr (P, g)))"
  by (cases r; cases "the r") (auto simp: particao_final_def)

text \<open>
  Claim C7. When \<open>encontrar_movimentacao_local\<close> returns a partition, a second run on
  that partition, with the same candidate graph and the same reference graph, returns it
  unchanged after one sweep, whatever the state of the generator.
\<close>

theorem movimentacao_local_idempotente:
  assumes "particao_final (encontrar_movimentacao_local fuel ord H G P g) = Some (Inr P')"
  shows "particao_final (encontrar_movimentacao_local (Suc fuel2) ord H G P' g2) = Some (Inr P')"
proof -
  from assms obtain g' where
    r: "encontrar_movimentacao_local fuel ord H G P g = Some (Inr (P', g'))"
    by (auto simp: particao_final_Some)
  obtain l g3 where s: "shuffle (nodes H) g2 = (l, g3)" by (cases "shuffle (nodes H) g2")
  have "set l = set (nodes H)"
    using set_shuffle [of "nodes H" g2] s by simp
  with encontrar_ponto_fixo [OF r]
  have "varredura ord H G l (P', False) = Inr (P', False)"
    by (intro varredura_parada) simp
  with s show ?thesis by (simp add: particao_final_def)
qed

theorem movimentacao_local_idempotente_witness:
  "particao_final (encontrar_movimentacao_local 3 remdups caminho5 caminho5
      (particao_singular caminho5) sorteio_zero) =
     Some (Inr [(0, 0), (1, 0), (2, 0), (3, 4), (4, 4)]) \<and>
   particao_final (encontrar_movimentacao_local (Suc 0) remdups caminho5 caminho5
      [(0, 0), (1, 0), (2, 0), (3, 4), (4, 4)] sorteio_tres) =
     Some (Inr [(0, 0), (1, 0), (2, 0), (3, 4), (4, 4)])"
proof -
  have h: "particao_final (encontrar_movimentacao_local 3 remdups caminho5 caminho5
      (particao_singular caminho5) sorteio_zero) =
     Some (Inr [(0, 0), (1, 0), (2, 0), (3, 4), (4, 4)])"
    by code_simp
  from h movimentacao_local_idempotente [OF h, of 0 sorteio_tres] show ?thesis by simp
qed






subsection \<open>Refinement\<close>

lemma chave_de_P: "map_of P no = Some c \<Longrightarrow> no \<in> fst ` set P"
  by (metis domI dom_map_of_conv_image_fst)

lemma passo_novo:
  assumes r: "inv_refino P n0 novo final" and a: "inv_atribuir P idc lo novo final mapa"
    and p: "map_of P no = Some idc" and lo: "n0 \<le> lo" and ab: "abaixo P n0"
  shows "inv_refino P n0 (novo + 1) (AList.update no novo final) \<and>
         inv_atribuir P idc lo (novo + 1) (AList.update no novo final) (AList.update k novo mapa)"
proof -
  from r have r1: "n0 \<le> novo" and r2: "fst ` set final = fst ` set P"
    and r3: "\<And>n x. map_of final n = Some x \<Longrightarrow> map_of P n = Some x \<or> (n0 \<le> x \<and> x < novo)"
    and r4: "\<And>n1 n2 x. n0 \<le> x \<Longrightarrow> map_of final n1 = Some x \<Longrightarrow> map_of final n2 = Some x \<Longrightarrow>
        map_of P n1 = map_of P n2"
    unfolding inv_refino_def by blast+
  from a have a1: "lo \<le> novo"
    and a2: "\<And>k i. map_of mapa k = Some i \<Longrightarrow> lo \<le> i \<and> i < novo"
    and a3: "\<And>n x. lo \<le> x \<Longrightarrow> map_of final n = Some x \<Longrightarrow> map_of P n = Some idc"
    unfolding inv_atribuir_def by blast+
  from ab have ab': "\<And>n c. map_of P n = Some c \<Longrightarrow> c < n0"
    unfolding abaixo_def by blast
  have old: "map_of final n \<noteq> Some novo" for n
  proof
    assume "map_of final n = Some novo"
    from r3 [OF this] ab' [of n novo] r1 show False by auto
  qed
  let ?f = "AList.update no novo final"
  have f: "map_of ?f n = (if n = no then Some novo else map_of final n)" for n
    by (simp add: update_conv')
  have k: "fst ` set ?f = fst ` set P"
    using r2 chave_de_P [OF p] by (auto simp: dom_update)
  have b: "map_of P n = Some x \<or> (n0 \<le> x \<and> x < novo + 1)" if "map_of ?f n = Some x" for n x
  proof (cases "n = no")
    case True
    with that r1 show ?thesis by (simp add: f)
  next
    case False
    with that r3 [of n x] show ?thesis by (auto simp: f)
  qed
  have c: "map_of P n1 = map_of P n2"
    if "n0 \<le> x" "map_of ?f n1 = Some x" "map_of ?f n2 = Some x" for n1 n2 x
  proof (cases "x = novo")
    case True
    with that old have "n1 = no" "n2 = no" by (auto simp: f split: if_splits)
    then show ?thesis by simp
  next
    case False
    with that have "map_of final n1 = Some x" "map_of final n2 = Some x"
      by (auto simp: f split: if_splits)
    with r4 that(1) show ?thesis by blast
  qed
  have R: "inv_refino P n0 (novo + 1) ?f"
    unfolding inv_refino_def using r1 k b c by (intro conjI allI impI) (simp, simp, blast, blast)
  have m: "lo \<le> i \<and> i < novo + 1" if "map_of (AList.update k novo mapa) k' = Some i" for k' i
  proof (cases "k' = k")
    case True
    with that a1 show ?thesis by (simp add: update_conv')
  next
    case False
    with that a2 [of k' i] show ?thesis by (auto simp: update_conv')
  qed
  have d: "map_of P n = Some idc" if "lo \<le> x" "map_of ?f n = Some x" for n x
  proof (cases "n = no")
    case True
    with p show ?thesis by simp
  next
    case False
    with that a3 [of x n] show ?thesis by (auto simp: f)
  qed
  have A: "inv_atribuir P idc lo (novo + 1) ?f (AList.update k novo mapa)"
    unfolding inv_atribuir_def using a1 m d by (intro conjI allI impI) (simp, blast, blast, blast)
  from R A show ?thesis ..
qed


lemma passo_existente:
  assumes r: "inv_refino P n0 novo final" and a: "inv_atribuir P idc lo novo final mapa"
    and p: "map_of P no = Some idc" and lo: "n0 \<le> lo" and i: "map_of mapa k = Some i"
  shows "inv_refino P n0 novo (AList.update no i final) \<and>
         inv_atribuir P idc lo novo (AList.update no i final) mapa"
proof -
  from r have r1: "n0 \<le> novo" and r2: "fst ` set final = fst ` set P"
    and r3: "\<And>n x. map_of final n = Some x \<Longrightarrow> map_of P n = Some x \<or> (n0 \<le> x \<and> x < novo)"
    and r4: "\<And>n1 n2 x. n0 \<le> x \<Longrightarrow> map_of final n1 = Some x \<Longrightarrow> map_of final n2 = Some x \<Longrightarrow>
        map_of P n1 = map_of P n2"
    unfolding inv_refino_def by blast+
  from a have a1: "lo \<le> novo"
    and a2: "\<And>k i. map_of mapa k = Some i \<Longrightarrow> lo \<le> i \<and> i < novo"
    and a3: "\<And>n x. lo \<le> x \<Longrightarrow> map_of final n = Some x \<Longrightarrow> map_of P n = Some idc"
    unfolding inv_atribuir_def by blast+
  from a2 [OF i] lo have ii: "lo \<le> i" "i < novo" "n0 \<le> i" by simp_all
  let ?f = "AList.update no i final"
  have f: "map_of ?f n = (if n = no then Some i else map_of final n)" for n
    by (simp add: update_conv')
  have k: "fst ` set ?f = fst ` set P"
    using r2 chave_de_P [OF p] by (auto simp: dom_update)
  have b: "map_of P n = Some x \<or> (n0 \<le> x \<and> x < novo)" if "map_of ?f n = Some x" for n x
  proof (cases "n = no")
    case True
    with that ii show ?thesis by (simp add: f)
  next
    case False
    with that r3 [of n x] show ?thesis by (auto simp: f)
  qed
  have d: "map_of P n = Some idc" if "lo \<le> x" "map_of ?f n = Some x" for n x
  proof (cases "n = no")
    case True
    with p show ?thesis by simp
  next
    case False
    with that a3 [of x n] show ?thesis by (auto simp: f)
  qed
  have c: "map_of P n1 = map_of P n2"
    if "n0 \<le> x" "map_of ?f n1 = Some x" "map_of ?f n2 = Some x" for n1 n2 x
  proof (cases "x = i")
    case True
    with that ii d [of x n1] d [of x n2] show ?thesis by simp
  next
    case False
    with that have "map_of final n1 = Some x" "map_of final n2 = Some x"
      by (auto simp: f split: if_splits)
    with r4 that(1) show ?thesis by blast
  qed
  have R: "inv_refino P n0 novo ?f"
    unfolding inv_refino_def using r1 k b c by (intro conjI allI impI) (simp, simp, blast, blast)
  have A: "inv_atribuir P idc lo novo ?f mapa"
    unfolding inv_atribuir_def using a1 a2 d by (intro conjI allI impI) (simp, blast, blast, blast)
  from R A show ?thesis ..
qed

lemma passo_coeso:
  assumes r: "inv_refino P n0 novo final" and a: "inv_atribuir P idc lo novo final mapa"
    and p: "map_of P no = Some idc" and lo: "n0 \<le> lo" and ab: "abaixo P n0"
  shows "inv_refino P n0 novo (AList.update no idc final) \<and>
         inv_atribuir P idc lo novo (AList.update no idc final) mapa"
proof -
  from r have r1: "n0 \<le> novo" and r2: "fst ` set final = fst ` set P"
    and r3: "\<And>n x. map_of final n = Some x \<Longrightarrow> map_of P n = Some x \<or> (n0 \<le> x \<and> x < novo)"
    and r4: "\<And>n1 n2 x. n0 \<le> x \<Longrightarrow> map_of final n1 = Some x \<Longrightarrow> map_of final n2 = Some x \<Longrightarrow>
        map_of P n1 = map_of P n2"
    unfolding inv_refino_def by blast+
  from a have a1: "lo \<le> novo"
    and a2: "\<And>k i. map_of mapa k = Some i \<Longrightarrow> lo \<le> i \<and> i < novo"
    and a3: "\<And>n x. lo \<le> x \<Longrightarrow> map_of final n = Some x \<Longrightarrow> map_of P n = Some idc"
    unfolding inv_atribuir_def by blast+
  from ab p have small: "idc < n0" unfolding abaixo_def by blast
  let ?f = "AList.update no idc final"
  have f: "map_of ?f n = (if n = no then Some idc else map_of final n)" for n
    by (simp add: update_conv')
  have k: "fst ` set ?f = fst ` set P"
    using r2 chave_de_P [OF p] by (auto simp: dom_update)
  have b: "map_of P n = Some x \<or> (n0 \<le> x \<and> x < novo)" if "map_of ?f n = Some x" for n x
  proof (cases "n = no")
    case True
    with that p show ?thesis by (simp add: f)
  next
    case False
    with that r3 [of n x] show ?thesis by (auto simp: f)
  qed
  have keep: "map_of final n = Some x" if "n0 \<le> x" "map_of ?f n = Some x" for n x
    using that small by (auto simp: f split: if_splits)
  have c: "map_of P n1 = map_of P n2"
    if "n0 \<le> x" "map_of ?f n1 = Some x" "map_of ?f n2 = Some x" for n1 n2 x
    using r4 [OF that(1) keep [OF that(1,2)] keep [OF that(1,3)]] .
  have d: "map_of P n = Some idc" if "lo \<le> x" "map_of ?f n = Some x" for n x
  proof -
    from that lo have "n0 \<le> x" by simp
    from keep [OF this that(2)] a3 [OF that(1)] show ?thesis by blast
  qed
  have R: "inv_refino P n0 novo ?f"
    unfolding inv_refino_def using r1 k b c by (intro conjI allI impI) (simp, simp, blast, blast)
  have A: "inv_atribuir P idc lo novo ?f mapa"
    unfolding inv_atribuir_def using a1 a2 d by (intro conjI allI impI) (simp, blast, blast, blast)
  from R A show ?thesis ..
qed

lemma atribuir_inv:
  assumes "\<forall>p \<in> set locais. map_of P (fst p) = Some idc" and "n0 \<le> lo" and "abaixo P n0"
    and "inv_refino P n0 novo final" and "inv_atribuir P idc lo novo final mapa"
  shows "inv_refino P n0 (snd (snd (atribuir d idc locais (final, mapa, novo))))
           (fst (atribuir d idc locais (final, mapa, novo)))"
  using assms
proof (induction locais arbitrary: final mapa novo)
  case Nil
  then show ?case by simp
next
  case (Cons p locais)
  from Cons.prems have p: "map_of P (fst p) = Some idc"
    and rest: "\<forall>p \<in> set locais. map_of P (fst p) = Some idc" by simp_all
  note IH = Cons.IH [OF rest Cons.prems(2,3)]
  show ?case
  proof (cases d)
    case False
    from passo_coeso [OF Cons.prems(4,5) p Cons.prems(2,3)] IH False show ?thesis
      by simp
  next
    case True
    show ?thesis
    proof (cases "map_of mapa (snd p)")
      case None
      from passo_novo [OF Cons.prems(4,5) p Cons.prems(2,3), of "snd p"] IH True None
      show ?thesis by simp
    next
      case (Some i)
      from passo_existente [OF Cons.prems(4,5) p Cons.prems(2) Some] IH True Some
      show ?thesis by simp
    qed
  qed
qed

lemma inv_atribuir_inicio:
  assumes "inv_refino P n0 novo final" and "abaixo P n0"
  shows "inv_atribuir P idc novo novo final []"
  unfolding inv_atribuir_def
proof (intro conjI allI impI)
  fix n x assume "novo \<le> x" "map_of final n = Some x"
  with assms show "map_of P n = Some idc"
    unfolding inv_refino_def abaixo_def by (metis not_less order_less_le_trans)
qed simp_all

lemma membro_mapeado:
  "distinct (map fst P) \<Longrightarrow> n \<in> set (nos_da_comunidade P c) \<Longrightarrow> map_of P n = Some c"
  by (simp add: set_nos_da_comunidade)

lemma rbind_Some:
  "rbind r f = Some y \<Longrightarrow> (\<exists>e. r = Some (Inl e) \<and> y = Inl e) \<or> (\<exists>x. r = Some (Inr x) \<and> f x = Some y)"
  by (auto simp: rbind_def split: option.splits sum.splits)

lemma refinar_laco_inv:
  assumes "distinct (map fst P)" and "abaixo P n0"
  shows "inv_refino P n0 novo final \<Longrightarrow>
         refinar_laco fuel ord G P ids (final, novo, g) = Some (Inr (final', novo', g')) \<Longrightarrow>
         inv_refino P n0 novo' final'"
proof (induction ids arbitrary: final novo g)
  case Nil
  then show ?case by simp
next
  case (Cons idc ids)
  let ?nos = "nos_da_comunidade P idc"
  show ?case
  proof (cases "length ?nos \<le> 1")
    case True
    with Cons.prems Cons.IH show ?thesis by (simp add: Let_def)
  next
    case False
    let ?run = "encontrar_movimentacao_local fuel ord (subgraph G ?nos) G (desmontar P ?nos) g"
    let ?k = "\<lambda>r. let comunidades_locais = filter (\<lambda>p. fst p \<in> set ?nos) (fst r);
                 dividida = (length (remdups (map snd comunidades_locais)) > 1);
                 st = atribuir dividida idc comunidades_locais (final, [], novo)
             in refinar_laco fuel ord G P ids (fst st, snd (snd st), snd r)"
    from Cons.prems(2) False have "rbind ?run ?k = Some (Inr (final', novo', g'))"
      by (simp add: Let_def)
    from rbind_Some [OF this] obtain r where r: "?k r = Some (Inr (final', novo', g'))"
      by auto
    let ?locais = "filter (\<lambda>p. fst p \<in> set ?nos) (fst r)"
    let ?d = "length (remdups (map snd ?locais)) > 1"
    let ?st = "atribuir ?d idc ?locais (final, [], novo)"
    have loc: "\<forall>p \<in> set ?locais. map_of P (fst p) = Some idc"
      using membro_mapeado [OF assms(1)] by simp
    from Cons.prems(1) have le: "n0 \<le> novo" by (simp add: inv_refino_def)
    have "inv_refino P n0 (snd (snd ?st)) (fst ?st)"
      by (rule atribuir_inv [OF loc le assms(2) Cons.prems(1)
            inv_atribuir_inicio [OF Cons.prems(1) assms(2)]])
    moreover from r have "refinar_laco fuel ord G P ids (fst ?st, snd (snd ?st), snd r) =
       Some (Inr (final', novo', g'))" by (simp add: Let_def)
    ultimately show ?thesis by (rule Cons.IH)
  qed
qed

lemma abaixo_inicial:
  "abaixo P (if P = [] then 0 else Max (set (map snd P)) + 1)"
proof (cases "P = []")
  case True
  then show ?thesis by (simp add: abaixo_def)
next
  case False
  have "c < Max (set (map snd P)) + 1" if "map_of P n = Some c" for n c
  proof -
    from that have "c \<in> set (map snd P)" by (metis map_of_SomeD image_eqI snd_conv set_map)
    then have "c \<le> Max (set (map snd P))" by (intro Max_ge) simp_all
    then show ?thesis by simp
  qed
  with False show ?thesis by (simp add: abaixo_def)
qed

lemma inv_refino_inicial: "abaixo P n0 \<Longrightarrow> inv_refino P n0 n0 P"
  unfolding inv_refino_def abaixo_def by (auto simp: not_le [symmetric])

lemma inv_refino_separa:
  assumes "inv_refino P n0 novo final" and "abaixo P n0"
    and "map_of P n1 = Some c1" and "map_of P n2 = Some c2" and "c1 \<noteq> c2"
  shows "\<exists>x1 x2. map_of final n1 = Some x1 \<and> map_of final n2 = Some x2 \<and> x1 \<noteq> x2"
proof -
  from assms(1) have keys: "fst ` set final = fst ` set P"
    and r3: "\<And>n x. map_of final n = Some x \<Longrightarrow> map_of P n = Some x \<or> (n0 \<le> x \<and> x < novo)"
    and r4: "\<And>n1 n2 x. n0 \<le> x \<Longrightarrow> map_of final n1 = Some x \<Longrightarrow> map_of final n2 = Some x \<Longrightarrow>
        map_of P n1 = map_of P n2"
    unfolding inv_refino_def by blast+
  from assms(2) have ab: "\<And>n c. map_of P n = Some c \<Longrightarrow> c < n0"
    unfolding abaixo_def by blast
  from keys chave_de_P [OF assms(3)] chave_de_P [OF assms(4)]
  obtain x1 x2 where x: "map_of final n1 = Some x1" "map_of final n2 = Some x2"
    by (metis domD dom_map_of_conv_image_fst)
  have "x1 \<noteq> x2"
  proof
    assume eq: "x1 = x2"
    show False
    proof (cases "n0 \<le> x1")
      case True
      from x(2) eq have "map_of final n2 = Some x1" by simp
      from r4 [OF True x(1) this] assms(3-5) show False by simp
    next
      case False
      with r3 [OF x(1)] r3 [OF x(2)] eq assms(3-5) show False by auto
    qed
  qed
  with x show ?thesis by blast
qed

text \<open>
  Claim C4. When \<open>refinar_particao\<close> returns, two nodes that the input partition puts
  in different communities are both in the output partition, in different communities:
  refinement subdivides communities and never merges across their boundaries.
\<close>

theorem refinar_nao_funde:
  assumes "distinct (map fst P)"
    and "particao_final (refinar_particao fuel ord G P g) = Some (Inr P')"
    and "map_of P n1 = Some c1" and "map_of P n2 = Some c2" and "c1 \<noteq> c2"
  shows "\<exists>x1 x2. map_of P' n1 = Some x1 \<and> map_of P' n2 = Some x2 \<and> x1 \<noteq> x2"
proof -
  let ?n0 = "if P = [] then 0 else Max (set (map snd P)) + 1"
  have ab: "abaixo P ?n0" by (rule abaixo_inicial)
  from assms(2) obtain g' where
    "refinar_particao fuel ord G P g = Some (Inr (P', g'))"
    by (auto simp: particao_final_Some)
  then have "rbind (refinar_laco fuel ord G P (ord (map snd P)) (P, ?n0, g))
           (\<lambda>st. Some (Inr (fst st, snd (snd st)))) = Some (Inr (P', g'))"
    by (simp add: refinar_particao_def Let_def)
  from rbind_Some [OF this] obtain novo' where
    "refinar_laco fuel ord G P (ord (map snd P)) (P, ?n0, g) = Some (Inr (P', novo', g'))"
    by auto
  from refinar_laco_inv [OF assms(1) ab inv_refino_inicial [OF ab] this]
  have "inv_refino P ?n0 novo' P'" .
  from inv_refino_separa [OF this ab assms(3-5)] show ?thesis .
qed

theorem refinar_nao_funde_witness:
  "distinct (map fst [(0 :: int, 7 :: int), (1, 7), (2, 5), (3, 7)]) \<and>
   particao_final (refinar_particao 3 remdups duas_arestas [(0, 7), (1, 7), (2, 5), (3, 7)]
      sorteio_zero) = Some (Inr [(0, 8), (1, 8), (2, 5), (3, 9)]) \<and>
   (\<exists>x1 x2. map_of [(0, 8), (1, 8), (2, 5), (3, 9 :: int)] (2 :: int) = Some x1 \<and>
            map_of [(0, 8), (1, 8), (2, 5), (3, 9 :: int)] (3 :: int) = Some x2 \<and> x1 \<noteq> x2)"
proof -
  have h1: "distinct (map fst [(0 :: int, 7 :: int), (1, 7), (2, 5), (3, 7)])" by simp
  have h2: "particao_final (refinar_particao 3 remdups duas_arestas
      [(0, 7), (1, 7), (2, 5), (3, 7)] sorteio_zero) = Some (Inr [(0, 8), (1, 8), (2, 5), (3, 9)])"
    by code_simp
  have h3: "map_of [(0 :: int, 7 :: int), (1, 7), (2, 5), (3, 7)] 2 = Some 5" by simp
  have h4: "map_of [(0 :: int, 7 :: int), (1, 7), (2, 5), (3, 7)] 3 = Some 7" by simp
  have h5: "(5 :: int) \<noteq> 7" by simp
  from refinar_nao_funde [OF h1 h2 h3 h4 h5] h1 h2 show ?thesis by blast
qed

subsection \<open>The returned partition is total\<close>

lemma fst_em: "(a, b) \<in> set P \<Longrightarrow> a \<in> fst ` set P"
  by (rule image_eqI [of _ _ "(a, b)"]) simp_all

lemma snd_em: "(a, b) \<in> set P \<Longrightarrow> b \<in> snd ` set P"
  by (rule image_eqI [of _ _ "(a, b)"]) simp_all

lemma update_chave_presente:
  "k \<in> fst ` set al \<Longrightarrow> map fst (AList.update k v al) = map fst al"
  by (simp add: update_keys)

lemma lookup_Inr: "lookup P k = Inr c \<longleftrightarrow> map_of P k = Some c"
  by (simp add: lookup_def split: option.splits)

lemma visitar_no_chaves:
  assumes "visitar_no ord H G st no = Inr st'"
  shows "map fst (fst st') = map fst (fst st)"
proof -
  from assms obtain a where a: "lookup (fst st) no = Inr a"
    by (cases "lookup (fst st) no") (simp_all add: visitar_no_def)
  then have k: "no \<in> fst ` set (fst st)"
    by (simp add: lookup_Inr chave_de_P)
  from assms show ?thesis
    by (auto simp: visitar_no_def ebind_def Let_def update_chave_presente [OF k]
        split: sum.splits if_splits)
qed

lemma varredura_chaves:
  "varredura ord H G ns st = Inr st' \<Longrightarrow> map fst (fst st') = map fst (fst st)"
proof (induction ns arbitrary: st)
  case Nil
  then show ?case by simp
next
  case (Cons no ns)
  then obtain st1 where v: "visitar_no ord H G st no = Inr st1"
    and r: "varredura ord H G ns st1 = Inr st'"
    by (cases "visitar_no ord H G st no") auto
  from Cons.IH [OF r] visitar_no_chaves [OF v] show ?case by simp
qed

lemma encontrar_chaves:
  "encontrar_movimentacao_local fuel ord H G P g = Some (Inr r) \<Longrightarrow> map fst (fst r) = map fst P"
proof (induction fuel arbitrary: P g)
  case 0
  then show ?case by simp
next
  case (Suc fuel)
  obtain l g1 where s: "shuffle (nodes H) g = (l, g1)" by (cases "shuffle (nodes H) g")
  with Suc.prems obtain st where v: "varredura ord H G l (P, False) = Inr st"
    by (cases "varredura ord H G l (P, False)") auto
  from varredura_chaves [OF v] have k: "map fst (fst st) = map fst P" by simp
  show ?case
  proof (cases "snd st")
    case True
    with Suc.prems s v have "encontrar_movimentacao_local fuel ord H G (fst st) g1 = Some (Inr r)"
      by simp
    from Suc.IH [OF this] k show ?thesis by simp
  next
    case False
    with Suc.prems s v k show ?thesis by auto
  qed
qed

lemma atribuir_chaves:
  "\<forall>p \<in> set locais. fst p \<in> fst ` set final \<Longrightarrow>
   map fst (fst (atribuir d idc locais (final, mapa, novo))) = map fst final"
proof (induction locais arbitrary: final mapa novo)
  case Nil
  then show ?case by simp
next
  case (Cons p locais)
  then have k: "fst p \<in> fst ` set final" by simp
  have rest: "\<forall>q \<in> set locais. fst q \<in> fst ` set (AList.update (fst p) v final)" for v
    using Cons.prems by (simp add: dom_update)
  have IH: "map fst (fst (atribuir d idc locais (AList.update (fst p) v final, mapa', novo'))) =
      map fst final" for v mapa' novo'
    using Cons.IH [OF rest, of v mapa' novo'] update_chave_presente [OF k, of v] by simp
  from IH show ?case
    by (cases d) (auto split: option.splits)
qed

lemma refinar_laco_chaves:
  "refinar_laco fuel ord G P ids (final, novo, g) = Some (Inr st') \<Longrightarrow>
   map fst final = map fst P \<Longrightarrow> map fst (fst st') = map fst P"
proof (induction ids arbitrary: final novo g)
  case Nil
  then show ?case by auto
next
  case (Cons idc ids)
  let ?nos = "nos_da_comunidade P idc"
  show ?case
  proof (cases "length ?nos \<le> 1")
    case True
    with Cons.prems Cons.IH show ?thesis by (simp add: Let_def)
  next
    case False
    let ?run = "encontrar_movimentacao_local fuel ord (subgraph G ?nos) G (desmontar P ?nos) g"
    let ?k = "\<lambda>r. let comunidades_locais = filter (\<lambda>p. fst p \<in> set ?nos) (fst r);
                 dividida = (length (remdups (map snd comunidades_locais)) > 1);
                 st = atribuir dividida idc comunidades_locais (final, [], novo)
             in refinar_laco fuel ord G P ids (fst st, snd (snd st), snd r)"
    from Cons.prems(1) False have "rbind ?run ?k = Some (Inr st')"
      by (simp add: Let_def)
    from rbind_Some [OF this] obtain r where r: "?k r = Some (Inr st')"
      by auto
    let ?locais = "filter (\<lambda>p. fst p \<in> set ?nos) (fst r)"
    let ?d = "length (remdups (map snd ?locais)) > 1"
    let ?st = "atribuir ?d idc ?locais (final, [], novo)"
    have "set ?nos \<subseteq> fst ` set P"
      by (force simp: set_nos_da_comunidade)
    also have "\<dots> = fst ` set final"
      using Cons.prems(2) by (metis set_map)
    finally have "\<forall>p \<in> set ?locais. fst p \<in> fst ` set final" by auto
    from atribuir_chaves [OF this] Cons.prems(2)
    have "map fst (fst ?st) = map fst P" by simp
    moreover from r have "refinar_laco fuel ord G P ids (fst ?st, snd (snd ?st), snd r) =
       Some (Inr st')" by (simp add: Let_def)
    ultimately show ?thesis by (intro Cons.IH)
  qed
qed

lemma refinar_particao_chaves:
  assumes "refinar_particao fuel ord G P g = Some (Inr r)"
  shows "map fst (fst r) = map fst P"
proof -
  let ?n0 = "if P = [] then 0 else Max (set (map snd P)) + 1"
  from assms have "rbind (refinar_laco fuel ord G P (ord (map snd P)) (P, ?n0, g))
           (\<lambda>st. Some (Inr (fst st, snd (snd st)))) = Some (Inr r)"
    by (simp add: refinar_particao_def Let_def)
  from rbind_Some [OF this] obtain st where
    st: "refinar_laco fuel ord G P (ord (map snd P)) (P, ?n0, g) = Some (Inr st)"
    and r: "r = (fst st, snd (snd st))"
    by auto
  from refinar_laco_chaves [OF st] r show ?thesis by simp
qed

lemma chaves_mapear_laco:
  "fst ` set (mapear_laco P xs acc) =
     fst ` set acc \<union> {fst p |p. p \<in> set xs \<and> snd p \<in> fst ` set P}"
proof (induction xs arbitrary: acc)
  case Nil
  then show ?case by simp
next
  case (Cons p xs)
  show ?case
  proof (cases "map_of P (snd p)")
    case None
    then have "snd p \<notin> fst ` set P" by (simp add: map_of_eq_None_iff)
    then have "{fst q |q. q \<in> set (p # xs) \<and> snd q \<in> fst ` set P} =
               {fst q |q. q \<in> set xs \<and> snd q \<in> fst ` set P}"
      by (cases p) (auto dest: fst_em)
    with None Cons.IH [of acc] show ?thesis by simp
  next
    case (Some c)
    then have "snd p \<in> fst ` set P" by (rule chave_de_P)
    then have "{fst q |q. q \<in> set (p # xs) \<and> snd q \<in> fst ` set P} =
               insert (fst p) {fst q |q. q \<in> set xs \<and> snd q \<in> fst ` set P}"
      by (cases p) auto
    with Some Cons.IH [of "AList.update (fst p) c acc"] show ?thesis
      by (simp add: dom_update)
  qed
qed

lemma valores_update: "snd ` set (AList.update k v al) \<subseteq> insert v (snd ` set al)"
  by (induction al) auto

lemma valores_mapear_laco:
  "snd ` set (mapear_laco P xs acc) \<subseteq> snd ` set acc \<union> snd ` set P"
proof (induction xs arbitrary: acc)
  case Nil
  then show ?case by simp
next
  case (Cons p xs)
  show ?case
  proof (cases "map_of P (snd p)")
    case None
    with Cons.IH show ?thesis by simp
  next
    case (Some c)
    then have "c \<in> snd ` set P" by (metis map_of_SomeD image_eqI snd_conv)
    with Cons.IH [of "AList.update (fst p) c acc"] valores_update [of "fst p" c acc] Some
    show ?thesis by auto
  qed
qed

lemma distinct_mapear_laco:
  "distinct (map fst acc) \<Longrightarrow> distinct (map fst (mapear_laco P xs acc))"
  by (induction xs arbitrary: acc) (auto simp: distinct_update split: option.splits)

lemma nodes_agrupar_arestas:
  "agrupar_arestas P es G0 = Inr G' \<Longrightarrow> set (nodes G0) \<subseteq> set (nodes G')"
proof (induction es arbitrary: G0)
  case Nil
  then show ?case by simp
next
  case (Cons e es)
  from Cons.prems obtain cu cv where
    cu: "lookup P (fst e) = Inr cu" and cv: "lookup P (fst (snd e)) = Inr cv"
    by (cases "lookup P (fst e)"; cases "lookup P (fst (snd e))") simp_all
  let ?G1 = "if has_edge G0 cu cv
             then G0\<lparr>edges := somar_peso (edges G0) cu cv (snd (snd e))\<rparr>
             else add_edge G0 cu cv (snd (snd e))"
  from Cons.prems cu cv have "agrupar_arestas P es ?G1 = Inr G'"
    by (simp add: Let_def)
  from Cons.IH [OF this] show ?case
    by (auto simp: add_edge_def add_node_def split: if_splits)
qed

lemma chaves_todas:
  assumes "snd ` set M \<subseteq> K"
  shows "{fst p |p. p \<in> set M \<and> snd p \<in> K} = fst ` set M"
proof (intro set_eqI iffI)
  fix x assume "x \<in> {fst p |p. p \<in> set M \<and> snd p \<in> K}"
  then obtain p where "p \<in> set M" "x = fst p" by blast
  then show "x \<in> fst ` set M" by blast
next
  fix x assume "x \<in> fst ` set M"
  then obtain p where p: "p \<in> set M" "x = fst p" by blast
  with assms have "snd p \<in> K" by blast
  with p show "x \<in> {fst p |p. p \<in> set M \<and> snd p \<in> K}" by blast
qed

lemma avaliar_nivel_inv:
  assumes ord: "valid_order ord" and inv: "inv_mapa G_orig s"
    and k: "fst ` set particao = set (nodes (grafo s))"
    and r: "avaliar_nivel ord G_orig s particao = Inr r"
  shows "case r of Inl res \<Rightarrow> distinct (map fst (fst res)) \<and> fst ` set (fst res) = set (nodes G_orig)
                 | Inr s' \<Rightarrow> inv_mapa G_orig s'"
proof -
  let ?m = "mapear_particao (no_em_mapa_comunidade s) particao"
  from inv k have "snd ` set (no_em_mapa_comunidade s) \<subseteq> fst ` set particao"
    by (simp add: inv_mapa_def)
  then have "{fst p |p. p \<in> set (no_em_mapa_comunidade s) \<and> snd p \<in> fst ` set particao} =
        fst ` set (no_em_mapa_comunidade s)"
    by (rule chaves_todas)
  with inv have mk: "fst ` set ?m = set (nodes G_orig)"
    by (simp add: mapear_particao_def chaves_mapear_laco inv_mapa_def)
  have md: "distinct (map fst ?m)"
    by (simp add: mapear_particao_def distinct_mapear_laco)
  have mv: "snd ` set ?m \<subseteq> snd ` set particao"
    using valores_mapear_laco [of particao "no_em_mapa_comunidade s" "[]"]
    by (simp add: mapear_particao_def)
  from r obtain q where q: "calcular_modularidade G_orig ?m = Inr q"
    by (cases "calcular_modularidade G_orig ?m") (simp_all add: avaliar_nivel_def Let_def)
  show ?thesis
  proof (cases "q \<le> melhor_modularidade s")
    case True
    with r q inv show ?thesis
      by (auto simp: avaliar_nivel_def Let_def inv_mapa_def)
  next
    case False
    with r q obtain G_novo where g: "agrupar_grafo ord (grafo s) particao = Inr G_novo"
      by (cases "agrupar_grafo ord (grafo s) particao") (simp_all add: avaliar_nivel_def Let_def)
    from nodes_agrupar_arestas [OF g [unfolded agrupar_grafo_def]] ord
    have "snd ` set particao \<subseteq> set (nodes G_novo)"
      by (simp add: valid_order_def)
    with mv have "snd ` set ?m \<subseteq> set (nodes G_novo)" by blast
    with r q g False mk md show ?thesis
      by (auto simp: avaliar_nivel_def Let_def inv_mapa_def split: if_splits)
  qed
qed

lemma chaves_particao_singular: "map fst (particao_singular G) = nodes G"
  by (simp add: particao_singular_def comp_def)

lemma leiden_laco_total:
  assumes ord: "valid_order ord"
  shows "inv_mapa G_orig s \<Longrightarrow>
         leiden_laco niveis fuel ord G_orig s g = Some (Inr (res, g')) \<Longrightarrow>
         distinct (map fst (fst res)) \<and> fst ` set (fst res) = set (nodes G_orig)"
proof (induction niveis arbitrary: s g)
  case 0
  then show ?case by simp
next
  case (Suc niveis)
  let ?G = "grafo s"
  from Suc.prems(2) have "rbind (encontrar_movimentacao_local fuel ord ?G ?G (particao_singular ?G) g)
     (\<lambda>r1. rbind (refinar_particao fuel ord ?G (fst r1) (snd r1)) (\<lambda>r2.
       case avaliar_nivel ord G_orig s (fst r2) of
         Inl e \<Rightarrow> Some (Inl e)
       | Inr (Inl resultado) \<Rightarrow> Some (Inr (resultado, snd r2))
       | Inr (Inr s') \<Rightarrow> leiden_laco niveis fuel ord G_orig s' (snd r2))) = Some (Inr (res, g'))"
    by simp
  from rbind_Some [OF this]
  obtain r1 where r1: "encontrar_movimentacao_local fuel ord ?G ?G (particao_singular ?G) g = Some (Inr r1)"
    and k1: "rbind (refinar_particao fuel ord ?G (fst r1) (snd r1)) (\<lambda>r2.
       case avaliar_nivel ord G_orig s (fst r2) of
         Inl e \<Rightarrow> Some (Inl e)
       | Inr (Inl resultado) \<Rightarrow> Some (Inr (resultado, snd r2))
       | Inr (Inr s') \<Rightarrow> leiden_laco niveis fuel ord G_orig s' (snd r2)) = Some (Inr (res, g'))"
    by auto
  from rbind_Some [OF k1] obtain r2 where
    r2: "refinar_particao fuel ord ?G (fst r1) (snd r1) = Some (Inr r2)"
    and k2: "(case avaliar_nivel ord G_orig s (fst r2) of
         Inl e \<Rightarrow> Some (Inl e)
       | Inr (Inl resultado) \<Rightarrow> Some (Inr (resultado, snd r2))
       | Inr (Inr s') \<Rightarrow> leiden_laco niveis fuel ord G_orig s' (snd r2)) = Some (Inr (res, g'))"
    by auto
  from encontrar_chaves [OF r1] refinar_particao_chaves [OF r2]
  have "map fst (fst r2) = nodes ?G" by (simp add: chaves_particao_singular)
  then have k: "fst ` set (fst r2) = set (nodes ?G)" by (metis set_map)
  from k2 obtain a where a: "avaliar_nivel ord G_orig s (fst r2) = Inr a"
    by (cases "avaliar_nivel ord G_orig s (fst r2)") simp_all
  note step = avaliar_nivel_inv [OF ord Suc.prems(1) k a]
  show ?case
  proof (cases a)
    case (Inl resultado)
    with k2 a step show ?thesis by auto
  next
    case (Inr s')
    with k2 a have "leiden_laco niveis fuel ord G_orig s' (snd r2) = Some (Inr (res, g'))"
      by simp
    moreover from step Inr have "inv_mapa G_orig s'" by simp
    ultimately show ?thesis by (intro Suc.IH)
  qed
qed

lemma louvain_laco_total:
  assumes ord: "valid_order ord"
  shows "inv_mapa G_orig s \<Longrightarrow>
         louvain_laco niveis fuel ord G_orig s g = Some (Inr (res, g')) \<Longrightarrow>
         distinct (map fst (fst res)) \<and> fst ` set (fst res) = set (nodes G_orig)"
proof (induction niveis arbitrary: s g)
  case 0
  then show ?case by simp
next
  case (Suc niveis)
  let ?G = "grafo s"
  from Suc.prems(2) have "rbind (encontrar_movimentacao_local fuel ord ?G ?G (particao_singular ?G) g)
     (\<lambda>r1. case avaliar_nivel ord G_orig s (fst r1) of
         Inl e \<Rightarrow> Some (Inl e)
       | Inr (Inl resultado) \<Rightarrow> Some (Inr (resultado, snd r1))
       | Inr (Inr s') \<Rightarrow> louvain_laco niveis fuel ord G_orig s' (snd r1)) = Some (Inr (res, g'))"
    by simp
  from rbind_Some [OF this]
  obtain r1 where r1: "encontrar_movimentacao_local fuel ord ?G ?G (particao_singular ?G) g = Some (Inr r1)"
    and k2: "(case avaliar_nivel ord G_orig s (fst r1) of
         Inl e \<Rightarrow> Some (Inl e)
       | Inr (Inl resultado) \<Rightarrow> Some (Inr (resultado, snd r1))
       | Inr (Inr s') \<Rightarrow> louvain_laco niveis fuel ord G_orig s' (snd r1)) = Some (Inr (res, g'))"
    by auto
  from encontrar_chaves [OF r1]
  have "map fst (fst r1) = nodes ?G" by (simp add: chaves_particao_singular)
  then have k: "fst ` set (fst r1) = set (nodes ?G)" by (metis set_map)
  from k2 obtain a where a: "avaliar_nivel ord G_orig s (fst r1) = Inr a"
    by (cases "avaliar_nivel ord G_orig s (fst r1)") simp_all
  note step = avaliar_nivel_inv [OF ord Suc.prems(1) k a]
  show ?case
  proof (cases a)
    case (Inl resultado)
    with k2 a step show ?thesis by auto
  next
    case (Inr s')
    with k2 a have "louvain_laco niveis fuel ord G_orig s' (snd r1) = Some (Inr (res, g'))"
      by simp
    moreover from step Inr have "inv_mapa G_orig s'" by simp
    ultimately show ?thesis by (intro Suc.IH)
  qed
qed

lemma inv_mapa_inicial: "distinct (nodes G) \<Longrightarrow> inv_mapa G (estado_inicial G)"
  by (simp add: inv_mapa_def estado_inicial_def chaves_particao_singular)
     (auto simp: particao_singular_def image_iff)

text \<open>
  Claim C3. The partition that \<open>leiden\<close> or \<open>louvain\<close> returns is a mapping defined
  on exactly the nodes of the input graph: no node is missing from it.
\<close>

theorem particao_total:
  assumes "valid_order ord" and "distinct (nodes G)"
    and "particao_final (leiden niveis fuel ord G g) = Some (Inr (P, h)) \<or>
         particao_final (louvain niveis fuel ord G g) = Some (Inr (P, h))"
  shows "distinct (map fst P) \<and> fst ` set P = set (nodes G)"
  using assms(3)
proof
  assume "particao_final (leiden niveis fuel ord G g) = Some (Inr (P, h))"
  then obtain g' where "leiden_laco niveis fuel ord G (estado_inicial G) g = Some (Inr ((P, h), g'))"
    by (auto simp: particao_final_Some leiden_def)
  from leiden_laco_total [OF assms(1) inv_mapa_inicial [OF assms(2)] this] show ?thesis by simp
next
  assume "particao_final (louvain niveis fuel ord G g) = Some (Inr (P, h))"
  then obtain g' where "louvain_laco niveis fuel ord G (estado_inicial G) g = Some (Inr ((P, h), g'))"
    by (auto simp: particao_final_Some louvain_def)
  from louvain_laco_total [OF assms(1) inv_mapa_inicial [OF assms(2)] this] show ?thesis by simp
qed


theorem particao_total_witness:
  "valid_order remdups \<and> distinct (nodes duas_arestas) \<and>
   particao_final (leiden 3 3 remdups duas_arestas sorteio_zero) =
     Some (Inr ([(0, 0), (1, 0), (2, 3), (3, 3)], [1 / 2])) \<and>
   particao_final (louvain 3 3 remdups duas_arestas sorteio_zero) =
     Some (Inr ([(0, 0), (1, 0), (2, 3), (3, 3)], [1 / 2])) \<and>
   distinct (map fst [(0 :: int, 0 :: int), (1, 0), (2, 3), (3, 3)]) \<and>
   fst ` set [(0 :: int, 0 :: int), (1, 0), (2, 3), (3, 3)] = set (nodes duas_arestas)"
proof -
  have h1: "valid_order remdups" by (simp add: valid_order_def)
  have h2: "distinct (nodes duas_arestas)" by (simp add: duas_arestas_def)
  have h3: "particao_final (leiden 3 3 remdups duas_arestas sorteio_zero) =
     Some (Inr ([(0, 0), (1, 0), (2, 3), (3, 3)], [1 / 2]))"
    by code_simp
  have h4: "particao_final (louvain 3 3 remdups duas_arestas sorteio_zero) =
     Some (Inr ([(0, 0), (1, 0), (2, 3), (3, 3)], [1 / 2]))"
    by code_simp
  from particao_total [OF h1 h2 disjI1 [OF h3]] particao_total [OF h1 h2 disjI2 [OF h4]]
    h1 h2 h3 h4 show ?thesis by simp
qed

subsection \<open>No tracked identifier is missing from a level partition\<close>




text \<open>
  The relation follows the loops: an iteration of \<open>leiden_laco\<close> or of
  \<open>louvain_laco\<close> that starts in a reached state and goes on calls itself on a reached
  state.
\<close>

lemma leiden_laco_proximo:
  assumes "nivel_alcancado ord G_orig s"
    and r1: "encontrar_movimentacao_local fuel ord (grafo s) (grafo s)
       (particao_singular (grafo s)) g = Some (Inr r1)"
    and r2: "refinar_particao fuel ord (grafo s) (fst r1) (snd r1) = Some (Inr r2)"
    and a: "avaliar_nivel ord G_orig s (fst r2) = Inr (Inr s')"
  shows "leiden_laco (Suc niveis) fuel ord G_orig s g = leiden_laco niveis fuel ord G_orig s' (snd r2) \<and>
         nivel_alcancado ord G_orig s'"
proof
  from r1 r2 a show "leiden_laco (Suc niveis) fuel ord G_orig s g =
      leiden_laco niveis fuel ord G_orig s' (snd r2)"
    by (simp add: rbind_def)
  from nivel_leiden [OF r1 r2] have "particao_do_nivel ord s (fst r2)" .
  from proximo_nivel [OF assms(1) this a] show "nivel_alcancado ord G_orig s'" .
qed

lemma louvain_laco_proximo:
  assumes "nivel_alcancado ord G_orig s"
    and r1: "encontrar_movimentacao_local fuel ord (grafo s) (grafo s)
       (particao_singular (grafo s)) g = Some (Inr r1)"
    and a: "avaliar_nivel ord G_orig s (fst r1) = Inr (Inr s')"
  shows "louvain_laco (Suc niveis) fuel ord G_orig s g = louvain_laco niveis fuel ord G_orig s' (snd r1) \<and>
         nivel_alcancado ord G_orig s'"
proof
  from r1 a show "louvain_laco (Suc niveis) fuel ord G_orig s g =
      louvain_laco niveis fuel ord G_orig s' (snd r1)"
    by (simp add: rbind_def)
  from nivel_louvain [OF r1] have "particao_do_nivel ord s (fst r1)" .
  from proximo_nivel [OF assms(1) this a] show "nivel_alcancado ord G_orig s'" .
qed



subsection \<open>The gain computed by the incremental evaluator\<close>

lemma membro_iff:
  "distinct (map fst P) \<Longrightarrow> n \<in> set (nos_da_comunidade P c) \<longleftrightarrow> map_of P n = Some c"
  by (simp add: set_nos_da_comunidade)

lemma peso_subgrafo:
  assumes "distinct (map fst P)"
  shows "size_graph (subgraph G (nos_da_comunidade P c)) = peso_interno G (map_of P) c"
  by (simp add: size_graph_def subgraph_def peso_interno_def sum_list_map_filter'
      membro_iff [OF assms])

lemma soma_indicador:
  "distinct ns \<Longrightarrow> (\<Sum>n\<leftarrow>ns. if a = n then (w :: real) else 0) = (if a \<in> set ns then w else 0)"
  by (induction ns) auto

lemma soma_graus_lista:
  "distinct ns \<Longrightarrow>
   (\<Sum>n\<leftarrow>ns. weighted_degree G n) =
   (\<Sum>e\<leftarrow>edges G. (if fst e \<in> set ns then snd (snd e) else 0) +
                    (if fst (snd e) \<in> set ns then snd (snd e) else 0))"
proof (induction ns)
  case Nil
  then show ?case by simp
next
  case (Cons n ns)
  then have IH: "(\<Sum>n\<leftarrow>ns. weighted_degree G n) =
   (\<Sum>e\<leftarrow>edges G. (if fst e \<in> set ns then snd (snd e) else 0) +
                    (if fst (snd e) \<in> set ns then snd (snd e) else 0))"
    and n: "n \<notin> set ns" by simp_all
  have "weighted_degree G n + (\<Sum>e\<leftarrow>edges G. (if fst e \<in> set ns then snd (snd e) else 0) +
                    (if fst (snd e) \<in> set ns then snd (snd e) else 0)) =
        (\<Sum>e\<leftarrow>edges G. ((if fst e = n then snd (snd e) else 0) +
                      (if fst (snd e) = n then snd (snd e) else 0)) +
                      ((if fst e \<in> set ns then snd (snd e) else 0) +
                    (if fst (snd e) \<in> set ns then snd (snd e) else 0)))"
    unfolding weighted_degree_def by (simp only: sum_list_addf)
  also have "\<dots> = (\<Sum>e\<leftarrow>edges G. (if fst e \<in> set (n # ns) then snd (snd e) else 0) +
                    (if fst (snd e) \<in> set (n # ns) then snd (snd e) else 0))"
    using n by (intro arg_cong [where f = sum_list] map_cong refl) auto
  finally show ?case by (simp add: IH)
qed

lemma distinct_nos_da_comunidade:
  "distinct (map fst P) \<Longrightarrow> distinct (nos_da_comunidade P c)"
  by (simp add: nos_da_comunidade_def distinct_map_filter)

lemma grau_da_comunidade:
  assumes "distinct (map fst P)"
  shows "(\<Sum>n\<leftarrow>nos_da_comunidade P c. weighted_degree G n) = grau_comunidade G (map_of P) c"
  by (simp add: soma_graus_lista [OF distinct_nos_da_comunidade [OF assms]]
      grau_comunidade_def membro_iff [OF assms])

lemma soma_k_ok:
  "\<forall>vp \<in> set items. fst vp \<in> fst ` set P \<Longrightarrow>
   soma_k P a b items acc =
     Inr (fst acc + (\<Sum>vp\<leftarrow>items. if map_of P (fst vp) = Some a then snd vp else 0),
          snd acc + (\<Sum>vp\<leftarrow>items. if map_of P (fst vp) = Some b then snd vp else 0))"
proof (induction items arbitrary: acc)
  case Nil
  then show ?case by simp
next
  case (Cons vp items)
  then have "fst vp \<in> fst ` set P" by simp
  then obtain c where c: "map_of P (fst vp) = Some c"
    by (metis domD dom_map_of_conv_image_fst)
  then have l: "lookup P (fst vp) = Inr c" by (simp add: lookup_def)
  from Cons.prems have "\<forall>vp \<in> set items. fst vp \<in> fst ` set P" by simp
  from Cons.IH [OF this] l c show ?case by (auto simp: algebra_simps)
qed

lemma soma_concat:
  "(\<Sum>x\<leftarrow>concat (map g es). (h x :: real)) = (\<Sum>e\<leftarrow>es. \<Sum>x\<leftarrow>g e. h x)"
  by (induction es) simp_all

lemma soma_adj_items:
  "(\<Sum>vp\<leftarrow>adj_items G n. if f (fst vp) = Some c then snd vp else 0) = peso_para G f n c"
  unfolding adj_items_def peso_para_def soma_concat
  by (intro arg_cong [where f = sum_list] map_cong refl) auto

lemma adj_items_em_nos:
  "\<forall>e \<in> set (edges G). fst e \<in> set (nodes G) \<and> fst (snd e) \<in> set (nodes G) \<Longrightarrow>
   vp \<in> set (adj_items G n) \<Longrightarrow> fst vp \<in> set (nodes G)"
  by (auto simp: adj_items_def split: if_splits)

lemma nos_em_chaves: "set (nos_da_comunidade P c) \<subseteq> fst ` set P"
  by (auto simp: set_nos_da_comunidade intro: fst_em)

lemma calc_propriedades_ok:
  assumes "distinct (map fst P)" and "fst ` set P = set (nodes G)"
  shows "calc_propriedades G (nos_da_comunidade P c) =
           Inr (grau_comunidade G (map_of P) c, peso_interno G (map_of P) c)"
proof -
  have "set (nos_da_comunidade P c) \<subseteq> set (nodes G)"
    using nos_em_chaves [of P c] assms(2) by simp
  from soma_graus_ok [OF this] show ?thesis
    by (simp add: calc_propriedades_def grau_da_comunidade [OF assms(1)]
        peso_subgrafo [OF assms(1)])
qed

lemma calc_delta_q_ok:
  assumes m: "size_graph G \<noteq> 0" and d: "distinct (map fst P)"
    and k: "fst ` set P = set (nodes G)"
    and e: "\<forall>e \<in> set (edges G). fst e \<in> set (nodes G) \<and> fst (snd e) \<in> set (nodes G)"
    and a: "map_of P n = Some a" and ab: "a \<noteq> b"
  shows "calc_delta_q G P n b = Inr (ganho G (map_of P) n a b)"
proof -
  from a have l: "lookup P n = Inr a" by (simp add: lookup_def)
  from chave_de_P [OF a] k have n: "n \<in> set (nodes G)" by simp
  have "fst vp \<in> fst ` set P" if "vp \<in> set (adj_items G n)" for vp
    using adj_items_em_nos [OF e that] k by simp
  then have "\<forall>vp \<in> set (adj_items G n). fst vp \<in> fst ` set P" ..
  from soma_k_ok [OF this, of a b "(0, 0)"]
  have sk: "soma_k P a b (adj_items G n) (0, 0) =
      Inr (peso_para G (map_of P) n a, peso_para G (map_of P) n b)"
    by (simp add: soma_adj_items)
  from m have m': "(size_graph G = 0) = False" by simp
  from ab have ab': "(a = b) = False" by simp
  from n have n': "(n \<in> set (nodes G)) = True" by simp
  show ?thesis
    unfolding calc_delta_q_def ganho_def Let_def
    by (simp only: m' ab' n' if_False if_True l ebind_Inr calc_propriedades_ok [OF d k]
        prod.case degree_def adj_def sk)
qed

lemma grau_comunidade_move:
  assumes "f n = Some a" and "a \<noteq> b"
  shows "grau_comunidade G (f(n \<mapsto> b)) c =
           grau_comunidade G f c + (if c = b then weighted_degree G n else 0) -
           (if c = a then weighted_degree G n else 0)"
proof -
  have "grau_comunidade G (f(n \<mapsto> b)) c =
     (\<Sum>e\<leftarrow>edges G.
        ((if f (fst e) = Some c then snd (snd e) else 0) +
         (if f (fst (snd e)) = Some c then snd (snd e) else 0)) +
        (if c = b then (if fst e = n then snd (snd e) else 0) +
                       (if fst (snd e) = n then snd (snd e) else 0) else 0) -
        (if c = a then (if fst e = n then snd (snd e) else 0) +
                       (if fst (snd e) = n then snd (snd e) else 0) else 0))"
    unfolding grau_comunidade_def using assms
    by (intro arg_cong [where f = sum_list] map_cong refl) auto
  also have "\<dots> = grau_comunidade G f c + (if c = b then weighted_degree G n else 0) -
           (if c = a then weighted_degree G n else 0)"
    unfolding grau_comunidade_def weighted_degree_def
    by (simp add: sum_list_addf sum_list_subtractf)
  finally show ?thesis .
qed

lemma peso_interno_move:
  assumes "f n = Some a" and "a \<noteq> b"
  shows "peso_interno G (f(n \<mapsto> b)) c =
           peso_interno G f c + (if c = b then peso_para G f n b + peso_laco G n else 0) -
           (if c = a then peso_para G f n a else 0)"
proof -
  let ?pa = "\<lambda>e c. if fst e = n then (if f (fst (snd e)) = Some c then snd (snd e) else 0)
                      else if fst (snd e) = n then (if f (fst e) = Some c then snd (snd e) else 0)
                      else (0 :: real)"
  have "peso_interno G (f(n \<mapsto> b)) c =
     (\<Sum>e\<leftarrow>edges G.
        (if f (fst e) = Some c \<and> f (fst (snd e)) = Some c then snd (snd e) else 0) +
        (if c = b then ?pa e b + (if fst e = n \<and> fst (snd e) = n then snd (snd e) else 0) else 0) -
        (if c = a then ?pa e a else 0))"
    unfolding peso_interno_def using assms
    by (intro arg_cong [where f = sum_list] map_cong refl) auto
  also have "\<dots> = peso_interno G f c + (if c = b then peso_para G f n b + peso_laco G n else 0) -
           (if c = a then peso_para G f n a else 0)"
    unfolding peso_interno_def peso_para_def peso_laco_def
    by (simp add: sum_list_addf sum_list_subtractf)
  finally show ?thesis .
qed

lemma potencial_move:
  assumes fin: "finite C" and a: "a \<in> C" and b: "b \<in> C"
    and fa: "f n = Some a" and ab: "a \<noteq> b" and m: "size_graph G \<noteq> 0"
  shows "potencial G C (f(n \<mapsto> b)) - potencial G C f =
           ganho G f n a b + peso_laco G n / size_graph G"
proof -
  let ?F = "\<lambda>f c. peso_interno G f c / size_graph G -
                (grau_comunidade G f c / (2 * size_graph G))\<^sup>2"
  let ?g = "\<lambda>c. ?F (f(n \<mapsto> b)) c - ?F f c"
  have zero: "?g c = 0" if "c \<noteq> a" "c \<noteq> b" for c
    using that by (simp add: grau_comunidade_move [of f n a b, OF fa ab] peso_interno_move [of f n a b, OF fa ab])
  have "potencial G C (f(n \<mapsto> b)) - potencial G C f = (\<Sum>c \<in> C. ?g c)"
    by (simp add: potencial_def sum_subtractf)
  also have "\<dots> = (\<Sum>c \<in> {a, b}. ?g c)"
    using fin a b zero by (intro sum.mono_neutral_right) auto
  also have "\<dots> = ?g a + ?g b"
    using ab by simp
  also have "\<dots> = ganho G f n a b + peso_laco G n / size_graph G"
    using ab m
    by (simp add: grau_comunidade_move [of f n a b, OF fa ab] peso_interno_move [of f n a b, OF fa ab] ganho_def Let_def
        add_divide_distrib diff_divide_distrib)
  finally show ?thesis .
qed

lemma calc_delta_q_total:
  assumes "grafo_fechado G" and "inv_local G C com" and "map_of com n = Some a" and "a \<noteq> c"
  shows "calc_delta_q G com n c = Inr (delta G (map_of com) n a c)"
proof (cases "size_graph G = 0")
  case True
  then show ?thesis by (simp add: calc_delta_q_def delta_def)
next
  case False
  from assms(1) have e: "\<forall>e \<in> set (edges G). fst e \<in> set (nodes G) \<and> fst (snd e) \<in> set (nodes G)"
    by (simp add: grafo_fechado_def)
  from assms(2) have d: "distinct (map fst com)" and k: "fst ` set com = set (nodes G)"
    by (simp_all add: inv_local_def)
  from calc_delta_q_ok [OF False d k e assms(3,4)] False show ?thesis
    by (simp add: delta_def)
qed

lemma comunidades_vizinhos_ok:
  "\<forall>v \<in> set vs. v \<in> fst ` set com \<Longrightarrow>
   \<exists>cs. comunidades_vizinhos com vs = Inr cs \<and> set cs \<subseteq> snd ` set com"
proof (induction vs)
  case Nil
  then show ?case by simp
next
  case (Cons v vs)
  then have "v \<in> fst ` set com" by simp
  then obtain c where c: "map_of com v = Some c"
    by (metis domD dom_map_of_conv_image_fst)
  then have l: "lookup com v = Inr c" by (simp add: lookup_def)
  from c have cv: "c \<in> snd ` set com" by (metis map_of_SomeD snd_em)
  from Cons obtain cs where "comunidades_vizinhos com vs = Inr cs" "set cs \<subseteq> snd ` set com"
    by auto
  with l cv show ?case by simp
qed

lemma melhor_movimento_ok:
  assumes "grafo_fechado G" and "inv_local G C com" and "map_of com n = Some a"
  shows "\<exists>best'. melhor_movimento G com n a cs best = Inr best' \<and>
           (best' = best \<or>
            (fst best < fst best' \<and> snd best' \<in> set cs \<and> snd best' \<noteq> a \<and>
             fst best' = delta G (map_of com) n a (snd best')))"
proof (induction cs arbitrary: best)
  case Nil
  then show ?case by simp
next
  case (Cons c cs)
  show ?case
  proof (cases "a = c")
    case True
    with Cons [of best] show ?thesis by auto
  next
    case False
    let ?d = "delta G (map_of com) n a c"
    have q: "calc_delta_q G com n c = Inr ?d"
      by (rule calc_delta_q_total [OF assms False])
    show ?thesis
    proof (cases "?d > fst best")
      case True
      from Cons [of "(?d, c)"] obtain best' where
        b: "melhor_movimento G com n a cs (?d, c) = Inr best'"
        and alt: "best' = (?d, c) \<or>
            (?d < fst best' \<and> snd best' \<in> set cs \<and> snd best' \<noteq> a \<and>
             fst best' = delta G (map_of com) n a (snd best'))"
        by auto
      from False q True b have r: "melhor_movimento G com n a (c # cs) best = Inr best'"
        by simp
      from alt True False have "fst best < fst best' \<and> snd best' \<in> set (c # cs) \<and> snd best' \<noteq> a \<and>
             fst best' = delta G (map_of com) n a (snd best')"
        by auto
      with r show ?thesis by blast
    next
      case nb: False
      from Cons [of best] obtain best' where
        b: "melhor_movimento G com n a cs best = Inr best'"
        and alt: "best' = best \<or>
            (fst best < fst best' \<and> snd best' \<in> set cs \<and> snd best' \<noteq> a \<and>
             fst best' = delta G (map_of com) n a (snd best'))"
        by auto
      from False q nb b have r: "melhor_movimento G com n a (c # cs) best = Inr best'"
        by simp
      from alt have "best' = best \<or>
            (fst best < fst best' \<and> snd best' \<in> set (c # cs) \<and> snd best' \<noteq> a \<and>
             fst best' = delta G (map_of com) n a (snd best'))"
        by auto
      with r show ?thesis by blast
    qed
  qed
qed

lemma adj_items_subgrafo:
  "subgrafo_de H G \<Longrightarrow> vp \<in> set (adj_items H n) \<Longrightarrow> fst vp \<in> set (nodes G)"
  by (auto simp: adj_items_def subgrafo_de_def split: if_splits)

lemma visitar_no_ok:
  assumes G: "grafo_fechado G" and H: "subgrafo_de H G" and inv: "inv_local G C com"
    and ord: "valid_order ord" and no: "no \<in> set (nodes H)"
  shows "\<exists>st'. visitar_no ord H G (com, b) no = Inr st' \<and>
           (st' = (com, b) \<or>
            (\<exists>a c. map_of com no = Some a \<and> c \<in> C \<and> c \<noteq> a \<and>
                   0 < delta G (map_of com) no a c \<and>
                   st' = (AList.update no c com, True)))"
proof -
  from inv have k: "fst ` set com = set (nodes G)" and v: "snd ` set com \<subseteq> C"
    by (simp_all add: inv_local_def)
  from H no have "no \<in> set (nodes G)" by (auto simp: subgrafo_de_def)
  with k have "no \<in> fst ` set com" by simp
  then obtain a where a: "map_of com no = Some a"
    by (metis domD dom_map_of_conv_image_fst)
  then have l: "lookup com no = Inr a" by (simp add: lookup_def)
  from no have nb: "neighbors H no = Inr (map fst (adj_items H no))"
    by (simp add: neighbors_def)
  have "\<forall>v \<in> set (map fst (adj_items H no)). v \<in> fst ` set com"
    using adj_items_subgrafo [OF H] k by auto
  from comunidades_vizinhos_ok [OF this] obtain cs where
    cs: "comunidades_vizinhos com (map fst (adj_items H no)) = Inr cs"
    and sub: "set cs \<subseteq> snd ` set com" by blast
  from ord have so: "set (ord cs) = set cs" by (simp add: valid_order_def)
  from melhor_movimento_ok [OF G inv a, of "ord cs" "(0, a)"] obtain best' where
    b: "melhor_movimento G com no a (ord cs) (0, a) = Inr best'"
    and alt: "best' = (0, a) \<or>
            (0 < fst best' \<and> snd best' \<in> set (ord cs) \<and> snd best' \<noteq> a \<and>
             fst best' = delta G (map_of com) no a (snd best'))"
    by auto
  from alt show ?thesis
  proof
    assume "best' = (0, a)"
    with l nb cs b show ?thesis by (simp add: visitar_no_def)
  next
    assume m: "0 < fst best' \<and> snd best' \<in> set (ord cs) \<and> snd best' \<noteq> a \<and>
             fst best' = delta G (map_of com) no a (snd best')"
    with so sub v have "snd best' \<in> C" by auto
    with m a l nb cs b show ?thesis by (auto simp: visitar_no_def)
  qed
qed

subsection \<open>Termination of the local moving\<close>

lemma size_graph_nonneg: "positive_weights G \<Longrightarrow> 0 \<le> size_graph G"
  unfolding size_graph_def positive_weights_def
  by (intro sum_list_nonneg) auto

lemma peso_laco_nonneg: "positive_weights G \<Longrightarrow> 0 \<le> peso_laco G n"
  unfolding peso_laco_def positive_weights_def
  by (intro sum_list_nonneg) auto

lemma inv_local_update:
  assumes "inv_local G C com" and "map_of com no = Some a" and "c \<in> C"
  shows "inv_local G C (AList.update no c com)"
proof -
  from assms(2) have k: "no \<in> fst ` set com" by (rule chave_de_P)
  from assms(1) have d: "distinct (map fst com)" and ks: "fst ` set com = set (nodes G)"
    and v: "snd ` set com \<subseteq> C" by (simp_all add: inv_local_def)
  have eq: "map fst (AList.update no c com) = map fst com"
    by (rule update_chave_presente [OF k])
  have "set (map fst (AList.update no c com)) = set (map fst com)"
    by (simp only: eq)
  then have "fst ` set (AList.update no c com) = set (nodes G)"
    using ks by simp
  moreover have "distinct (map fst (AList.update no c com))"
    using d by (simp only: eq)
  moreover have "snd ` set (AList.update no c com) \<subseteq> C"
    using valores_update [of no c com] v assms(3) by blast
  ultimately show ?thesis by (simp add: inv_local_def)
qed

lemma potencial_cresce:
  assumes pos: "positive_weights G" and inv: "inv_local G C com" and fin: "finite C"
    and a: "map_of com no = Some a" and c: "c \<in> C" and ca: "c \<noteq> a"
    and d: "0 < delta G (map_of com) no a c"
  shows "potencial G C (map_of com) < potencial G C (map_of (AList.update no c com))"
proof -
  from d have m: "size_graph G \<noteq> 0" and g: "0 < ganho G (map_of com) no a c"
    by (auto simp: delta_def split: if_splits)
  with size_graph_nonneg [OF pos] have mp: "0 < size_graph G" by simp
  from a have "a \<in> snd ` set com" by (metis map_of_SomeD snd_em)
  with inv have aC: "a \<in> C" by (auto simp: inv_local_def)
  from ca have ac: "a \<noteq> c" by simp
  have "potencial G C ((map_of com)(no \<mapsto> c)) - potencial G C (map_of com) =
          ganho G (map_of com) no a c + peso_laco G no / size_graph G"
    by (rule potencial_move [where f = "map_of com" and n = no, OF fin aC c a ac m])
  moreover have "0 \<le> peso_laco G no / size_graph G"
    using peso_laco_nonneg [OF pos] mp by simp
  ultimately show ?thesis using g by (simp add: update_conv')
qed

lemma varredura_ok:
  assumes G: "grafo_fechado G" and H: "subgrafo_de H G" and ord: "valid_order ord"
    and pos: "positive_weights G" and fin: "finite C"
  shows "set l \<subseteq> set (nodes H) \<Longrightarrow> inv_local G C com \<Longrightarrow>
         \<exists>st'. varredura ord H G l (com, b) = Inr st' \<and> inv_local G C (fst st') \<and>
               potencial G C (map_of com) \<le> potencial G C (map_of (fst st')) \<and>
               (snd st' \<and> \<not> b \<longrightarrow> potencial G C (map_of com) < potencial G C (map_of (fst st')))"
proof (induction l arbitrary: com b)
  case Nil
  then show ?case by simp
next
  case (Cons no l)
  then have no: "no \<in> set (nodes H)" and l: "set l \<subseteq> set (nodes H)" by simp_all
  from visitar_no_ok [OF G H Cons.prems(2) ord no, of b] obtain st1 where
    v: "visitar_no ord H G (com, b) no = Inr st1"
    and alt: "st1 = (com, b) \<or>
            (\<exists>a c. map_of com no = Some a \<and> c \<in> C \<and> c \<noteq> a \<and>
                   0 < delta G (map_of com) no a c \<and>
                   st1 = (AList.update no c com, True))"
    by blast
  from alt show ?case
  proof
    assume same: "st1 = (com, b)"
    from Cons.IH [OF l Cons.prems(2), of b] v same show ?thesis by simp
  next
    assume "\<exists>a c. map_of com no = Some a \<and> c \<in> C \<and> c \<noteq> a \<and>
                   0 < delta G (map_of com) no a c \<and>
                   st1 = (AList.update no c com, True)"
    then obtain a c where a: "map_of com no = Some a" and c: "c \<in> C" and ca: "c \<noteq> a"
      and d: "0 < delta G (map_of com) no a c" and st1: "st1 = (AList.update no c com, True)"
      by blast
    let ?com1 = "AList.update no c com"
    have inv1: "inv_local G C ?com1" by (rule inv_local_update [OF Cons.prems(2) a c])
    have up: "potencial G C (map_of com) < potencial G C (map_of ?com1)"
      by (rule potencial_cresce [OF pos Cons.prems(2) fin a c ca d])
    from Cons.IH [OF l inv1, of True] obtain st' where
      r: "varredura ord H G l (?com1, True) = Inr st'" and i: "inv_local G C (fst st')"
      and le: "potencial G C (map_of ?com1) \<le> potencial G C (map_of (fst st'))"
      by blast
    from v st1 r have "varredura ord H G (no # l) (com, b) = Inr st'" by simp
    moreover from up le have "potencial G C (map_of com) < potencial G C (map_of (fst st'))"
      by simp
    ultimately show ?thesis using i by auto
  qed
qed

lemma finito_inv_local:
  assumes "finite C"
  shows "finite {com. inv_local G C com}"
proof -
  let ?k = "card (set (nodes G))"
  have "{com. inv_local G C com} \<subseteq> {xs. set xs \<subseteq> set (nodes G) \<times> C \<and> length xs = ?k}"
  proof
    fix com assume "com \<in> {com. inv_local G C com}"
    then have d: "distinct (map fst com)" and ks: "fst ` set com = set (nodes G)"
      and v: "snd ` set com \<subseteq> C" by (simp_all add: inv_local_def)
    have "set com \<subseteq> set (nodes G) \<times> C"
    proof
      fix p assume "p \<in> set com"
      then have "fst p \<in> fst ` set com" "snd p \<in> snd ` set com" by simp_all
      with ks v show "p \<in> set (nodes G) \<times> C" by (cases p) auto
    qed
    moreover have "length com = ?k"
      using distinct_card [OF d] ks by simp
    ultimately show "com \<in> {xs. set xs \<subseteq> set (nodes G) \<times> C \<and> length xs = ?k}" by simp
  qed
  moreover have "finite {xs. set xs \<subseteq> set (nodes G) \<times> C \<and> length xs = ?k}"
    using assms by (intro finite_lists_length_eq) simp
  ultimately show ?thesis by (rule finite_subset)
qed

lemma encontrar_termina:
  assumes G: "grafo_fechado G" and H: "subgrafo_de H G" and ord: "valid_order ord"
    and pos: "positive_weights G" and fin: "finite C"
  shows "inv_local G C com \<Longrightarrow>
         \<exists>fuel r. encontrar_movimentacao_local fuel ord H G com g = Some (Inr r) \<and>
                  inv_local G C (fst r)"
proof (induction "card {q \<in> potencial G C ` map_of ` {c. inv_local G C c}.
                          potencial G C (map_of com) < q}"
       arbitrary: com g rule: less_induct)
  case less
  let ?V = "potencial G C ` map_of ` {c. inv_local G C c}"
  have finV: "finite ?V" using finito_inv_local [OF fin] by simp
  obtain l g1 where s: "shuffle (nodes H) g = (l, g1)" by (cases "shuffle (nodes H) g")
  have "set l \<subseteq> set (nodes H)" using set_shuffle [of "nodes H" g] s by simp
  from varredura_ok [OF G H ord pos fin this less.prems, of False] obtain st' where
    v: "varredura ord H G l (com, False) = Inr st'" and i: "inv_local G C (fst st')"
    and up: "snd st' \<longrightarrow> potencial G C (map_of com) < potencial G C (map_of (fst st'))"
    by auto
  show ?case
  proof (cases "snd st'")
    case False
    with s v have "encontrar_movimentacao_local (Suc 0) ord H G com g = Some (Inr (fst st', g1))"
      by simp
    with i show ?thesis by (metis fst_conv)
  next
    case True
    with up have lt: "potencial G C (map_of com) < potencial G C (map_of (fst st'))" by simp
    let ?A = "{q \<in> ?V. potencial G C (map_of (fst st')) < q}"
    let ?B = "{q \<in> ?V. potencial G C (map_of com) < q}"
    have "potencial G C (map_of (fst st')) \<in> ?B"
      using i lt by simp
    moreover have "potencial G C (map_of (fst st')) \<notin> ?A" by simp
    moreover have "?A \<subseteq> ?B" using lt by auto
    ultimately have "?A \<subset> ?B" by blast
    moreover have "finite ?B" using finV by simp
    ultimately have "card ?A < card ?B" by (rule psubset_card_mono [rotated])
    from less.hyps [OF this i, of g1] obtain fuel r where
      r: "encontrar_movimentacao_local fuel ord H G (fst st') g1 = Some (Inr r)"
      and ir: "inv_local G C (fst r)" by blast
    from s v True r have "encontrar_movimentacao_local (Suc fuel) ord H G com g = Some (Inr r)"
      by simp
    with ir show ?thesis by blast
  qed
qed

lemma encontrar_mono:
  "encontrar_movimentacao_local fuel ord H G com g = Some r \<Longrightarrow>
   encontrar_movimentacao_local (fuel + k) ord H G com g = Some r"
proof (induction fuel arbitrary: com g)
  case 0
  then show ?case by simp
next
  case (Suc fuel)
  obtain l g1 where s: "shuffle (nodes H) g = (l, g1)" by (cases "shuffle (nodes H) g")
  show ?case
  proof (cases "varredura ord H G l (com, False)")
    case (Inl e)
    with Suc.prems s show ?thesis by simp
  next
    case (Inr st)
    show ?thesis
    proof (cases "snd st")
      case True
      with Suc.prems s Inr have "encontrar_movimentacao_local fuel ord H G (fst st) g1 = Some r"
        by simp
      from Suc.IH [OF this] s Inr True show ?thesis by simp
    next
      case False
      with Suc.prems s Inr show ?thesis by simp
    qed
  qed
qed

subsection \<open>Termination of the refinement\<close>

lemma desmontar_chaves:
  "set nos \<subseteq> fst ` set P \<Longrightarrow>
   map fst (desmontar P nos) = map fst P \<and>
   snd ` set (desmontar P nos) \<subseteq> snd ` set P \<union> set nos"
  unfolding desmontar_def
proof (induction nos arbitrary: P)
  case Nil
  then show ?case by simp
next
  case (Cons no nos)
  then have k: "no \<in> fst ` set P" and rest: "set nos \<subseteq> fst ` set P" by simp_all
  let ?P1 = "AList.update no no P"
  have eq: "map fst ?P1 = map fst P" by (rule update_chave_presente [OF k])
  then have "set (map fst ?P1) = set (map fst P)" by (simp only:)
  with rest have "set nos \<subseteq> fst ` set ?P1" by simp
  from Cons.IH [OF this] have m: "map fst (fold (\<lambda>no p. AList.update no no p) nos ?P1) = map fst ?P1"
    and v: "snd ` set (fold (\<lambda>no p. AList.update no no p) nos ?P1) \<subseteq> snd ` set ?P1 \<union> set nos"
    by simp_all
  from v valores_update [of no no P]
  have "snd ` set (fold (\<lambda>no p. AList.update no no p) nos ?P1) \<subseteq> snd ` set P \<union> set (no # nos)"
    by (simp only: set_simps) blast
  with m eq show ?case by simp
qed

lemma inv_local_desmontar:
  assumes "distinct (map fst P)" and "fst ` set P = set (nodes G)"
  shows "inv_local G (snd ` set P \<union> set (nos_da_comunidade P c))
           (desmontar P (nos_da_comunidade P c))"
proof -
  let ?nos = "nos_da_comunidade P c"
  from desmontar_chaves [OF nos_em_chaves [of P c]]
  have eq: "map fst (desmontar P ?nos) = map fst P"
    and v: "snd ` set (desmontar P ?nos) \<subseteq> snd ` set P \<union> set ?nos" by simp_all
  from eq have "set (map fst (desmontar P ?nos)) = set (map fst P)" by (simp only:)
  with assms(2) have "fst ` set (desmontar P ?nos) = set (nodes G)" by simp
  moreover from assms(1) have "distinct (map fst (desmontar P ?nos))" by (simp only: eq)
  ultimately show ?thesis using v by (simp add: inv_local_def)
qed

lemma subgrafo_de_subgraph: "grafo_fechado G \<Longrightarrow> subgrafo_de (subgraph G ns) G"
  by (auto simp: grafo_fechado_def subgrafo_de_def subgraph_def)

lemma subgrafo_de_refl: "grafo_fechado G \<Longrightarrow> subgrafo_de G G"
  by (auto simp: grafo_fechado_def subgrafo_de_def)

lemma rbind_mono:
  assumes "rbind r f = Some y" and "\<And>z. r = Some z \<Longrightarrow> r' = Some z"
    and "\<And>x z. f x = Some z \<Longrightarrow> f' x = Some z"
  shows "rbind r' f' = Some y"
  using assms by (auto simp: rbind_def split: option.splits sum.splits)

lemma refinar_laco_mono:
  "refinar_laco fuel ord G P ids st = Some r \<Longrightarrow>
   refinar_laco (fuel + k) ord G P ids st = Some r"
proof (induction ids arbitrary: st r)
  case Nil
  then show ?case by simp
next
  case (Cons idc ids)
  obtain final novo g where st: "st = (final, novo, g)" by (cases st) auto
  let ?nos = "nos_da_comunidade P idc"
  show ?case
  proof (cases "length ?nos \<le> 1")
    case True
    with Cons.prems Cons.IH st show ?thesis by (simp add: Let_def)
  next
    case False
    let ?run = "\<lambda>fuel. encontrar_movimentacao_local fuel ord (subgraph G ?nos) G (desmontar P ?nos) g"
    let ?k = "\<lambda>fuel r. let comunidades_locais = filter (\<lambda>p. fst p \<in> set ?nos) (fst r);
                 dividida = (length (remdups (map snd comunidades_locais)) > 1);
                 st = atribuir dividida idc comunidades_locais (final, [], novo)
             in refinar_laco fuel ord G P ids (fst st, snd (snd st), snd r)"
    from Cons.prems False st have "rbind (?run fuel) (?k fuel) = Some r"
      by (simp add: Let_def)
    then have "rbind (?run (fuel + k)) (?k (fuel + k)) = Some r"
    proof (rule rbind_mono)
      fix z assume "?run fuel = Some z"
      then show "?run (fuel + k) = Some z" by (rule encontrar_mono)
    next
      fix x z assume "?k fuel x = Some z"
      then show "?k (fuel + k) x = Some z" unfolding Let_def by (rule Cons.IH)
    qed
    with False st show ?thesis by (simp add: Let_def)
  qed
qed

lemma refinar_particao_mono:
  "refinar_particao fuel ord G P g = Some r \<Longrightarrow>
   refinar_particao (fuel + k) ord G P g = Some r"
  unfolding refinar_particao_def Let_def
  by (erule rbind_mono) (simp_all add: refinar_laco_mono)

lemma refinar_laco_termina:
  assumes G: "grafo_fechado G" and ord: "valid_order ord" and pos: "positive_weights G"
    and d: "distinct (map fst P)" and k: "fst ` set P = set (nodes G)"
  shows "\<exists>fuel st'. refinar_laco fuel ord G P ids st = Some (Inr st')"
proof (induction ids arbitrary: st)
  case Nil
  show ?case by (cases st) auto
next
  case (Cons idc ids)
  obtain final novo g where st: "st = (final, novo, g)" by (cases st) auto
  let ?nos = "nos_da_comunidade P idc"
  show ?case
  proof (cases "length ?nos \<le> 1")
    case True
    from Cons.IH [of st] obtain fuel st' where
      "refinar_laco fuel ord G P ids st = Some (Inr st')" by blast
    with True st have "refinar_laco fuel ord G P (idc # ids) st = Some (Inr st')"
      by (simp add: Let_def)
    then show ?thesis by blast
  next
    case False
    let ?C = "snd ` set P \<union> set ?nos"
    have fin: "finite ?C" by simp
    from encontrar_termina [OF G subgrafo_de_subgraph [OF G, of ?nos] ord pos fin
        inv_local_desmontar [OF d k, of idc], of g]
    obtain f1 r where
      r: "encontrar_movimentacao_local f1 ord (subgraph G ?nos) G (desmontar P ?nos) g =
            Some (Inr r)" by blast
    let ?locais = "filter (\<lambda>p. fst p \<in> set ?nos) (fst r)"
    let ?d = "length (remdups (map snd ?locais)) > 1"
    let ?st = "atribuir ?d idc ?locais (final, [], novo)"
    from Cons.IH [of "(fst ?st, snd (snd ?st), snd r)"] obtain f2 st' where
      rest: "refinar_laco f2 ord G P ids (fst ?st, snd (snd ?st), snd r) = Some (Inr st')"
      by blast
    from encontrar_mono [OF r, of f2]
    have r': "encontrar_movimentacao_local (f1 + f2) ord (subgraph G ?nos) G (desmontar P ?nos) g =
            Some (Inr r)" .
    from refinar_laco_mono [OF rest, of f1]
    have rest': "refinar_laco (f1 + f2) ord G P ids (fst ?st, snd (snd ?st), snd r) =
            Some (Inr st')" by (simp add: add.commute)
    from False st r' rest'
    have "refinar_laco (f1 + f2) ord G P (idc # ids) st = Some (Inr st')"
      by (simp add: Let_def rbind_def)
    then show ?thesis by blast
  qed
qed

lemma refinar_particao_termina:
  assumes G: "grafo_fechado G" and ord: "valid_order ord" and pos: "positive_weights G"
    and d: "distinct (map fst P)" and k: "fst ` set P = set (nodes G)"
  shows "\<exists>fuel r. refinar_particao fuel ord G P g = Some (Inr r)"
proof -
  let ?n0 = "if P = [] then 0 else Max (set (map snd P)) + 1"
  from refinar_laco_termina [OF assms, of "ord (map snd P)" "(P, ?n0, g)"]
  obtain fuel st' where
    "refinar_laco fuel ord G P (ord (map snd P)) (P, ?n0, g) = Some (Inr st')" by blast
  then have "refinar_particao fuel ord G P g = Some (Inr (fst st', snd (snd st')))"
    by (simp add: refinar_particao_def Let_def rbind_def)
  then show ?thesis by blast
qed

subsection \<open>The aggregated graph\<close>

lemma extremos_somar_peso:
  "map (\<lambda>e. (fst e, fst (snd e))) (somar_peso es a b p) = map (\<lambda>e. (fst e, fst (snd e))) es"
  by (induction es) auto

lemma positivo_somar_peso:
  "\<forall>e \<in> set es. 0 < snd (snd e) \<Longrightarrow> 0 < p \<Longrightarrow>
   \<forall>e \<in> set (somar_peso es a b p). 0 < snd (snd e)"
  by (induction es) auto

lemma agregado_ok_somar:
  assumes "agregado_ok G" and "0 < p"
  shows "agregado_ok (G\<lparr>edges := somar_peso (edges G) a b p\<rparr>)"
proof -
  have "(\<lambda>e. (fst e, fst (snd e))) ` set (somar_peso (edges G) a b p) =
        (\<lambda>e. (fst e, fst (snd e))) ` set (edges G)"
    using arg_cong [OF extremos_somar_peso [of "edges G" a b p], of set] by simp
  then have "\<forall>e \<in> set (somar_peso (edges G) a b p).
      fst e \<in> set (nodes G) \<and> fst (snd e) \<in> set (nodes G)"
    using assms(1) unfolding agregado_ok_def
    by (metis (no_types, lifting) fst_conv image_iff snd_conv)
  moreover have "\<forall>e \<in> set (somar_peso (edges G) a b p). 0 < snd (snd e)"
    using assms positivo_somar_peso [of "edges G" p a b]
    by (simp add: agregado_ok_def positive_weights_def)
  ultimately show ?thesis by (simp add: agregado_ok_def positive_weights_def)
qed

lemma agregado_ok_add_edge:
  assumes "agregado_ok G" and "0 < p" and "a \<in> set (nodes G)" and "b \<in> set (nodes G)"
  shows "agregado_ok (add_edge G a b p) \<and> nodes (add_edge G a b p) = nodes G"
  using assms by (auto simp: agregado_ok_def positive_weights_def add_edge_def add_node_def)

lemma lookup_valor: "lookup P k = Inr c \<Longrightarrow> c \<in> snd ` set P"
  by (auto simp: lookup_def split: option.splits dest: map_of_SomeD intro: snd_em)

lemma agrupar_arestas_agregado:
  assumes "snd ` set P \<subseteq> N"
  shows "agrupar_arestas P es G0 = Inr G' \<Longrightarrow> set (nodes G0) = N \<Longrightarrow> agregado_ok G0 \<Longrightarrow>
         \<forall>e \<in> set es. 0 < snd (snd e) \<Longrightarrow>
         agregado_ok G' \<and> nodes G' = nodes G0"
proof (induction es arbitrary: G0)
  case Nil
  then show ?case by simp
next
  case (Cons e es)
  from Cons.prems(1) obtain cu cv where
    cu: "lookup P (fst e) = Inr cu" and cv: "lookup P (fst (snd e)) = Inr cv"
    by (cases "lookup P (fst e)"; cases "lookup P (fst (snd e))") simp_all
  from lookup_valor [OF cu] lookup_valor [OF cv] assms Cons.prems(2)
  have mem: "cu \<in> set (nodes G0)" "cv \<in> set (nodes G0)" by auto
  from Cons.prems(4) have p: "0 < snd (snd e)" and rest: "\<forall>e \<in> set es. 0 < snd (snd e)"
    by simp_all
  let ?G1 = "if has_edge G0 cu cv
             then G0\<lparr>edges := somar_peso (edges G0) cu cv (snd (snd e))\<rparr>
             else add_edge G0 cu cv (snd (snd e))"
  from Cons.prems(1) cu cv have r: "agrupar_arestas P es ?G1 = Inr G'"
    by (simp add: Let_def)
  have ok1: "agregado_ok ?G1" and n1: "nodes ?G1 = nodes G0"
    using agregado_ok_somar [OF Cons.prems(3) p, of cu cv]
      agregado_ok_add_edge [OF Cons.prems(3) p mem] by simp_all
  from n1 Cons.prems(2) have "set (nodes ?G1) = N" by simp
  from Cons.IH [OF r this ok1 rest] n1 show ?case by simp
qed

lemma agrupar_grafo_nivel:
  assumes ord: "valid_order ord" and G: "grafo_fechado G" and pos: "positive_weights G"
    and k: "map fst particao = nodes G"
  shows "\<exists>G_novo. agrupar_grafo ord G particao = Inr G_novo \<and> grafo_fechado G_novo \<and>
           positive_weights G_novo \<and> set (nodes G_novo) = snd ` set particao \<and>
           length (nodes G_novo) \<le> length (nodes G)"
proof -
  let ?G0 = "\<lparr>nodes = ord (map snd particao), edges = []\<rparr>"
  from k have ks: "fst ` set particao = set (nodes G)" by (metis set_map)
  from G ks have "\<forall>e \<in> set (edges G). fst e \<in> fst ` set particao \<and> fst (snd e) \<in> fst ` set particao"
    by (simp add: grafo_fechado_def)
  from agrupar_arestas_ok [OF this, of ?G0] obtain G_novo where
    r: "agrupar_arestas particao (edges G) ?G0 = Inr G_novo" by blast
  from ord have so: "set (ord (map snd particao)) = snd ` set particao"
    and dord: "distinct (ord (map snd particao))" by (simp_all add: valid_order_def)
  have ok0: "agregado_ok ?G0" by (simp add: agregado_ok_def positive_weights_def)
  from pos have pw: "\<forall>e \<in> set (edges G). 0 < snd (snd e)" by (simp add: positive_weights_def)
  have n0: "set (nodes ?G0) = snd ` set particao" using so by simp
  from agrupar_arestas_agregado [OF subset_refl r n0 ok0 pw]
  have ok: "agregado_ok G_novo" and n: "nodes G_novo = ord (map snd particao)" by simp_all
  have "length (ord (map snd particao)) = card (snd ` set particao)"
    using distinct_card [OF dord] so by simp
  also have "\<dots> \<le> card (set particao)" by (rule card_image_le) simp
  also have "\<dots> \<le> length particao" by (rule card_length)
  also have "\<dots> = length (nodes G)" using arg_cong [OF k, of length] by simp
  finally have le: "length (nodes G_novo) \<le> length (nodes G)" by (simp add: n)
  from ok n dord so le r show ?thesis
    by (auto simp: agrupar_grafo_def grafo_fechado_def agregado_ok_def)
qed

subsection \<open>Termination of the multilevel loop and its history\<close>

lemma avaliar_nivel_historico:
  assumes "inv_historico s" and "avaliar_nivel ord G_orig s particao = Inr r"
  shows "case r of Inl res \<Rightarrow> sorted_wrt (<) (snd res) | Inr s' \<Rightarrow> inv_historico s'"
proof -
  let ?m = "mapear_particao (no_em_mapa_comunidade s) particao"
  from assms(1) have srt: "sorted_wrt (<) (modularidades_por_nivel s)"
    and ub: "\<forall>x \<in> set (modularidades_por_nivel s). x \<le> melhor_modularidade s"
    by (simp_all add: inv_historico_def)
  from assms(2) obtain q where q: "calcular_modularidade G_orig ?m = Inr q"
    by (cases "calcular_modularidade G_orig ?m") (simp_all add: avaliar_nivel_def Let_def)
  show ?thesis
  proof (cases "q \<le> melhor_modularidade s")
    case True
    with assms(2) q srt show ?thesis by (auto simp: avaliar_nivel_def Let_def)
  next
    case False
    with ub have lt: "\<forall>x \<in> set (modularidades_por_nivel s). x < q" by auto
    with srt have s2: "sorted_wrt (<) (modularidades_por_nivel s @ [q])"
      by (simp add: sorted_wrt_append)
    from lt have u2: "\<forall>x \<in> set (modularidades_por_nivel s @ [q]). x \<le> q" by auto
    from assms(2) q False obtain G_novo where
      g: "agrupar_grafo ord (grafo s) particao = Inr G_novo"
      by (cases "agrupar_grafo ord (grafo s) particao") (simp_all add: avaliar_nivel_def Let_def)
    with assms(2) q False s2 u2 show ?thesis
      by (auto simp: avaliar_nivel_def Let_def inv_historico_def split: if_splits)
  qed
qed

lemma avaliar_nivel_passo:
  assumes ord: "valid_order ord" and inv: "inv_nivel G_orig s"
    and k: "map fst particao = nodes (grafo s)"
  shows "\<exists>r. avaliar_nivel ord G_orig s particao = Inr r \<and>
           (case r of Inl res \<Rightarrow> True
                    | Inr s' \<Rightarrow> inv_nivel G_orig s' \<and>
                               length (nodes (grafo s')) < length (nodes (grafo s)))"
proof -
  let ?m = "mapear_particao (no_em_mapa_comunidade s) particao"
  from inv have im: "inv_mapa G_orig s" and G: "grafo_fechado (grafo s)"
    and pos: "positive_weights (grafo s)" by (simp_all add: inv_nivel_def)
  from k have ks: "fst ` set particao = set (nodes (grafo s))" by (metis set_map)
  from im ks have "snd ` set (no_em_mapa_comunidade s) \<subseteq> fst ` set particao"
    by (simp add: inv_mapa_def)
  from chaves_todas [OF this] im have mk: "fst ` set ?m = set (nodes G_orig)"
    by (simp add: mapear_particao_def chaves_mapear_laco inv_mapa_def)
  have md: "distinct (map fst ?m)"
    by (simp add: mapear_particao_def distinct_mapear_laco)
  from mk have "fst ` set ?m \<subseteq> set (nodes G_orig)" by simp
  from calcular_modularidade_spec [OF md this]
  obtain q where q: "calcular_modularidade G_orig ?m = Inr q" by blast
  from agrupar_grafo_nivel [OF ord G pos k] obtain G_novo where
    g: "agrupar_grafo ord (grafo s) particao = Inr G_novo" and gf: "grafo_fechado G_novo"
    and gp: "positive_weights G_novo" and gn: "set (nodes G_novo) = snd ` set particao"
    and gl: "length (nodes G_novo) \<le> length (nodes (grafo s))" by blast
  show ?thesis
  proof (cases "q \<le> melhor_modularidade s")
    case True
    with q show ?thesis by (simp add: avaliar_nivel_def Let_def)
  next
    case False
    show ?thesis
    proof (cases "length (nodes G_novo) = length (nodes (grafo s))")
      case True
      with q g False show ?thesis by (simp add: avaliar_nivel_def Let_def)
    next
      case ne: False
      let ?s' = "\<lparr>grafo = G_novo,
                 no_em_mapa_comunidade = ?m,
                 melhor_particao_geral = ?m,
                 melhor_modularidade = q,
                 modularidades_por_nivel = modularidades_por_nivel s @ [q]\<rparr>"
      from q g False ne have r: "avaliar_nivel ord G_orig s particao = Inr (Inr ?s')"
        by (simp add: avaliar_nivel_def Let_def)
      from avaliar_nivel_inv [OF ord im ks r] have "inv_mapa G_orig ?s'" by simp
      with gf gp have "inv_nivel G_orig ?s'" by (simp add: inv_nivel_def)
      moreover from gl ne have "length (nodes (grafo ?s')) < length (nodes (grafo s))" by simp
      ultimately show ?thesis using r by simp
    qed
  qed
qed

lemma inv_local_singular:
  "distinct (nodes G) \<Longrightarrow> inv_local G (snd ` set (particao_singular G)) (particao_singular G)"
  by (simp add: inv_local_def chaves_particao_singular) (metis chaves_particao_singular set_map)

lemma leiden_laco_mono:
  "leiden_laco niveis fuel ord G_orig s g = Some r \<Longrightarrow>
   leiden_laco niveis (fuel + k) ord G_orig s g = Some r"
proof (induction niveis arbitrary: s g r)
  case 0
  then show ?case by simp
next
  case (Suc niveis)
  let ?G = "grafo s"
  let ?k2 = "\<lambda>fuel r2. case avaliar_nivel ord G_orig s (fst r2) of
         Inl e \<Rightarrow> Some (Inl e)
       | Inr (Inl resultado) \<Rightarrow> Some (Inr (resultado, snd r2))
       | Inr (Inr s') \<Rightarrow> leiden_laco niveis fuel ord G_orig s' (snd r2)"
  let ?k1 = "\<lambda>fuel r1. rbind (refinar_particao fuel ord ?G (fst r1) (snd r1)) (?k2 fuel)"
  let ?run = "\<lambda>fuel. encontrar_movimentacao_local fuel ord ?G ?G (particao_singular ?G) g"
  have m2: "?k2 (fuel + k) x = Some z" if "?k2 fuel x = Some z" for x z
    using that Suc.IH by (auto split: sum.splits)
  have m1: "?k1 (fuel + k) x = Some z" if "?k1 fuel x = Some z" for x z
    using that
  proof (rule rbind_mono)
    fix y assume "refinar_particao fuel ord ?G (fst x) (snd x) = Some y"
    then show "refinar_particao (fuel + k) ord ?G (fst x) (snd x) = Some y"
      by (rule refinar_particao_mono)
  qed (rule m2)
  from Suc.prems have "rbind (?run fuel) (?k1 fuel) = Some r" by simp
  then have "rbind (?run (fuel + k)) (?k1 (fuel + k)) = Some r"
  proof (rule rbind_mono)
    fix z assume "?run fuel = Some z"
    then show "?run (fuel + k) = Some z" by (rule encontrar_mono)
  qed (rule m1)
  then show ?case by simp
qed

lemma louvain_laco_mono:
  "louvain_laco niveis fuel ord G_orig s g = Some r \<Longrightarrow>
   louvain_laco niveis (fuel + k) ord G_orig s g = Some r"
proof (induction niveis arbitrary: s g r)
  case 0
  then show ?case by simp
next
  case (Suc niveis)
  let ?G = "grafo s"
  let ?k2 = "\<lambda>fuel r2. case avaliar_nivel ord G_orig s (fst r2) of
         Inl e \<Rightarrow> Some (Inl e)
       | Inr (Inl resultado) \<Rightarrow> Some (Inr (resultado, snd r2))
       | Inr (Inr s') \<Rightarrow> louvain_laco niveis fuel ord G_orig s' (snd r2)"
  let ?run = "\<lambda>fuel. encontrar_movimentacao_local fuel ord ?G ?G (particao_singular ?G) g"
  have m2: "?k2 (fuel + k) x = Some z" if "?k2 fuel x = Some z" for x z
    using that Suc.IH by (auto split: sum.splits)
  from Suc.prems have "rbind (?run fuel) (?k2 fuel) = Some r" by simp
  then have "rbind (?run (fuel + k)) (?k2 (fuel + k)) = Some r"
  proof (rule rbind_mono)
    fix z assume "?run fuel = Some z"
    then show "?run (fuel + k) = Some z" by (rule encontrar_mono)
  qed (rule m2)
  then show ?case by simp
qed

lemma leiden_laco_termina:
  assumes ord: "valid_order ord"
  shows "inv_nivel G_orig s \<Longrightarrow>
         \<exists>niveis fuel r. leiden_laco niveis fuel ord G_orig s g = Some (Inr r)"
proof (induction "length (nodes (grafo s))" arbitrary: s g rule: less_induct)
  case less
  let ?G = "grafo s"
  from less.prems have G: "grafo_fechado ?G" and pos: "positive_weights ?G"
    by (simp_all add: inv_nivel_def)
  from G have dn: "distinct (nodes ?G)" by (simp add: grafo_fechado_def)
  have fin: "finite (snd ` set (particao_singular ?G))" by simp
  from encontrar_termina [OF G subgrafo_de_refl [OF G] ord pos fin inv_local_singular [OF dn], of g]
  obtain f1 r1 where
    r1: "encontrar_movimentacao_local f1 ord ?G ?G (particao_singular ?G) g = Some (Inr r1)"
    by blast
  from encontrar_chaves [OF r1] have k1: "map fst (fst r1) = nodes ?G"
    by (simp add: chaves_particao_singular)
  from k1 dn have d1: "distinct (map fst (fst r1))" by simp
  from k1 have s1: "fst ` set (fst r1) = set (nodes ?G)" by (metis set_map)
  from refinar_particao_termina [OF G ord pos d1 s1, of "snd r1"]
  obtain f2 r2 where
    r2: "refinar_particao f2 ord ?G (fst r1) (snd r1) = Some (Inr r2)" by blast
  from refinar_particao_chaves [OF r2] k1 have k2: "map fst (fst r2) = nodes ?G" by simp
  from avaliar_nivel_passo [OF ord less.prems k2] obtain a where
    a: "avaliar_nivel ord G_orig s (fst r2) = Inr a"
    and alt: "case a of Inl res \<Rightarrow> True
                    | Inr s' \<Rightarrow> inv_nivel G_orig s' \<and>
                               length (nodes (grafo s')) < length (nodes (grafo s))"
    by blast
  show ?case
  proof (cases a)
    case (Inl res)
    from encontrar_mono [OF r1, of f2]
    have e: "encontrar_movimentacao_local (f1 + f2) ord ?G ?G (particao_singular ?G) g =
               Some (Inr r1)" .
    from refinar_particao_mono [OF r2, of f1]
    have r: "refinar_particao (f1 + f2) ord ?G (fst r1) (snd r1) = Some (Inr r2)"
      by (simp add: add.commute)
    from e r a Inl have "leiden_laco (Suc 0) (f1 + f2) ord G_orig s g = Some (Inr (res, snd r2))"
      by (simp add: rbind_def)
    then show ?thesis by blast
  next
    case (Inr s')
    with alt have inv': "inv_nivel G_orig s'"
      and lt: "length (nodes (grafo s')) < length (nodes (grafo s))" by simp_all
    from less.hyps [OF lt inv', of "snd r2"] obtain niveis f3 r3 where
      r3: "leiden_laco niveis f3 ord G_orig s' (snd r2) = Some (Inr r3)" by blast
    let ?F = "f1 + f2 + f3"
    from encontrar_mono [OF r1, of "f2 + f3"]
    have e: "encontrar_movimentacao_local ?F ord ?G ?G (particao_singular ?G) g = Some (Inr r1)"
      by (simp add: add.assoc)
    from refinar_particao_mono [OF r2, of "f1 + f3"]
    have r: "refinar_particao ?F ord ?G (fst r1) (snd r1) = Some (Inr r2)"
      by (simp add: ac_simps)
    from leiden_laco_mono [OF r3, of "f1 + f2"]
    have l: "leiden_laco niveis ?F ord G_orig s' (snd r2) = Some (Inr r3)"
      by (simp add: ac_simps)
    from e r a Inr l have "leiden_laco (Suc niveis) ?F ord G_orig s g = Some (Inr r3)"
      by (simp add: rbind_def)
    then show ?thesis by blast
  qed
qed

lemma louvain_laco_termina:
  assumes ord: "valid_order ord"
  shows "inv_nivel G_orig s \<Longrightarrow>
         \<exists>niveis fuel r. louvain_laco niveis fuel ord G_orig s g = Some (Inr r)"
proof (induction "length (nodes (grafo s))" arbitrary: s g rule: less_induct)
  case less
  let ?G = "grafo s"
  from less.prems have G: "grafo_fechado ?G" and pos: "positive_weights ?G"
    by (simp_all add: inv_nivel_def)
  from G have dn: "distinct (nodes ?G)" by (simp add: grafo_fechado_def)
  have fin: "finite (snd ` set (particao_singular ?G))" by simp
  from encontrar_termina [OF G subgrafo_de_refl [OF G] ord pos fin inv_local_singular [OF dn], of g]
  obtain f1 r1 where
    r1: "encontrar_movimentacao_local f1 ord ?G ?G (particao_singular ?G) g = Some (Inr r1)"
    by blast
  from encontrar_chaves [OF r1] have k1: "map fst (fst r1) = nodes ?G"
    by (simp add: chaves_particao_singular)
  from avaliar_nivel_passo [OF ord less.prems k1] obtain a where
    a: "avaliar_nivel ord G_orig s (fst r1) = Inr a"
    and alt: "case a of Inl res \<Rightarrow> True
                    | Inr s' \<Rightarrow> inv_nivel G_orig s' \<and>
                               length (nodes (grafo s')) < length (nodes (grafo s))"
    by blast
  show ?case
  proof (cases a)
    case (Inl res)
    from r1 a Inl have "louvain_laco (Suc 0) f1 ord G_orig s g = Some (Inr (res, snd r1))"
      by (simp add: rbind_def)
    then show ?thesis by blast
  next
    case (Inr s')
    with alt have inv': "inv_nivel G_orig s'"
      and lt: "length (nodes (grafo s')) < length (nodes (grafo s))" by simp_all
    from less.hyps [OF lt inv', of "snd r1"] obtain niveis f3 r3 where
      r3: "louvain_laco niveis f3 ord G_orig s' (snd r1) = Some (Inr r3)" by blast
    from encontrar_mono [OF r1, of f3]
    have e: "encontrar_movimentacao_local (f1 + f3) ord ?G ?G (particao_singular ?G) g =
               Some (Inr r1)" .
    from louvain_laco_mono [OF r3, of f1]
    have l: "louvain_laco niveis (f1 + f3) ord G_orig s' (snd r1) = Some (Inr r3)"
      by (simp add: ac_simps)
    from e a Inr l have "louvain_laco (Suc niveis) (f1 + f3) ord G_orig s g = Some (Inr r3)"
      by (simp add: rbind_def)
    then show ?thesis by blast
  qed
qed

lemma leiden_laco_historico:
  "inv_historico s \<Longrightarrow> leiden_laco niveis fuel ord G_orig s g = Some (Inr r) \<Longrightarrow>
   sorted_wrt (<) (snd (fst r))"
proof (induction niveis arbitrary: s g)
  case 0
  then show ?case by simp
next
  case (Suc niveis)
  let ?G = "grafo s"
  from Suc.prems(2) have "rbind (encontrar_movimentacao_local fuel ord ?G ?G (particao_singular ?G) g)
     (\<lambda>r1. rbind (refinar_particao fuel ord ?G (fst r1) (snd r1)) (\<lambda>r2.
       case avaliar_nivel ord G_orig s (fst r2) of
         Inl e \<Rightarrow> Some (Inl e)
       | Inr (Inl resultado) \<Rightarrow> Some (Inr (resultado, snd r2))
       | Inr (Inr s') \<Rightarrow> leiden_laco niveis fuel ord G_orig s' (snd r2))) = Some (Inr r)"
    by simp
  from rbind_Some [OF this] obtain r1 where
    "rbind (refinar_particao fuel ord ?G (fst r1) (snd r1)) (\<lambda>r2.
       case avaliar_nivel ord G_orig s (fst r2) of
         Inl e \<Rightarrow> Some (Inl e)
       | Inr (Inl resultado) \<Rightarrow> Some (Inr (resultado, snd r2))
       | Inr (Inr s') \<Rightarrow> leiden_laco niveis fuel ord G_orig s' (snd r2)) = Some (Inr r)"
    by auto
  from rbind_Some [OF this] obtain r2 where
    k2: "(case avaliar_nivel ord G_orig s (fst r2) of
         Inl e \<Rightarrow> Some (Inl e)
       | Inr (Inl resultado) \<Rightarrow> Some (Inr (resultado, snd r2))
       | Inr (Inr s') \<Rightarrow> leiden_laco niveis fuel ord G_orig s' (snd r2)) = Some (Inr r)"
    by auto
  then obtain a where a: "avaliar_nivel ord G_orig s (fst r2) = Inr a"
    by (cases "avaliar_nivel ord G_orig s (fst r2)") simp_all
  note step = avaliar_nivel_historico [OF Suc.prems(1) a]
  show ?case
  proof (cases a)
    case (Inl resultado)
    with k2 a step show ?thesis by auto
  next
    case (Inr s')
    with k2 a have "leiden_laco niveis fuel ord G_orig s' (snd r2) = Some (Inr r)" by simp
    moreover from step Inr have "inv_historico s'" by simp
    ultimately show ?thesis by (intro Suc.IH)
  qed
qed

lemma louvain_laco_historico:
  "inv_historico s \<Longrightarrow> louvain_laco niveis fuel ord G_orig s g = Some (Inr r) \<Longrightarrow>
   sorted_wrt (<) (snd (fst r))"
proof (induction niveis arbitrary: s g)
  case 0
  then show ?case by simp
next
  case (Suc niveis)
  let ?G = "grafo s"
  from Suc.prems(2) have "rbind (encontrar_movimentacao_local fuel ord ?G ?G (particao_singular ?G) g)
     (\<lambda>r1. case avaliar_nivel ord G_orig s (fst r1) of
         Inl e \<Rightarrow> Some (Inl e)
       | Inr (Inl resultado) \<Rightarrow> Some (Inr (resultado, snd r1))
       | Inr (Inr s') \<Rightarrow> louvain_laco niveis fuel ord G_orig s' (snd r1)) = Some (Inr r)"
    by simp
  from rbind_Some [OF this] obtain r2 where
    k2: "(case avaliar_nivel ord G_orig s (fst r2) of
         Inl e \<Rightarrow> Some (Inl e)
       | Inr (Inl resultado) \<Rightarrow> Some (Inr (resultado, snd r2))
       | Inr (Inr s') \<Rightarrow> louvain_laco niveis fuel ord G_orig s' (snd r2)) = Some (Inr r)"
    by auto
  then obtain a where a: "avaliar_nivel ord G_orig s (fst r2) = Inr a"
    by (cases "avaliar_nivel ord G_orig s (fst r2)") simp_all
  note step = avaliar_nivel_historico [OF Suc.prems(1) a]
  show ?case
  proof (cases a)
    case (Inl resultado)
    with k2 a step show ?thesis by auto
  next
    case (Inr s')
    with k2 a have "louvain_laco niveis fuel ord G_orig s' (snd r2) = Some (Inr r)" by simp
    moreover from step Inr have "inv_historico s'" by simp
    ultimately show ?thesis by (intro Suc.IH)
  qed
qed

lemma inv_nivel_inicial:
  assumes "wf_graph G" and "positive_weights G"
  shows "inv_nivel G (estado_inicial G)"
proof -
  from assms(1) have d: "distinct (nodes G)" and f: "grafo_fechado G"
    by (simp_all add: wf_graph_def grafo_fechado_def)
  have "grafo (estado_inicial G) = G" by (simp add: estado_inicial_def)
  with inv_mapa_inicial [OF d] f assms(2) show ?thesis by (simp add: inv_nivel_def)
qed

lemma inv_historico_inicial: "inv_historico (estado_inicial G)"
  by (simp add: inv_historico_def estado_inicial_def)

text \<open>
  With the gains and the modularities compared as exact reals: on a well-formed graph
  with positive weights, \<open>leiden\<close> and \<open>louvain\<close> return (some number of levels and
  of sweeps is enough, from every state of the generator), and the history of every
  returned result is strictly increasing from one entry to the next. The second half
  does not depend on the arithmetic: an entry is appended only when it exceeds the
  recorded best.
\<close>

theorem historico_crescente:
  assumes "wf_graph G" and "positive_weights G" and "valid_order ord"
  shows "(\<exists>niveis fuel P h. particao_final (leiden niveis fuel ord G g) = Some (Inr (P, h))) \<and>
         (\<exists>niveis fuel P h. particao_final (louvain niveis fuel ord G g) = Some (Inr (P, h))) \<and>
         (\<forall>niveis fuel P h.
            particao_final (leiden niveis fuel ord G g) = Some (Inr (P, h)) \<or>
            particao_final (louvain niveis fuel ord G g) = Some (Inr (P, h)) \<longrightarrow>
            sorted_wrt (<) h)"
proof (intro conjI allI impI)
  from leiden_laco_termina [OF assms(3) inv_nivel_inicial [OF assms(1,2)], of g]
  obtain niveis fuel r where "leiden niveis fuel ord G g = Some (Inr r)"
    by (auto simp: leiden_def)
  then have "particao_final (leiden niveis fuel ord G g) = Some (Inr (fst (fst r), snd (fst r)))"
    by (simp add: particao_final_def)
  then show "\<exists>niveis fuel P h. particao_final (leiden niveis fuel ord G g) = Some (Inr (P, h))"
    by blast
next
  from louvain_laco_termina [OF assms(3) inv_nivel_inicial [OF assms(1,2)], of g]
  obtain niveis fuel r where "louvain niveis fuel ord G g = Some (Inr r)"
    by (auto simp: louvain_def)
  then have "particao_final (louvain niveis fuel ord G g) = Some (Inr (fst (fst r), snd (fst r)))"
    by (simp add: particao_final_def)
  then show "\<exists>niveis fuel P h. particao_final (louvain niveis fuel ord G g) = Some (Inr (P, h))"
    by blast
next
  fix niveis fuel P h
  assume "particao_final (leiden niveis fuel ord G g) = Some (Inr (P, h)) \<or>
          particao_final (louvain niveis fuel ord G g) = Some (Inr (P, h))"
  then show "sorted_wrt (<) h"
  proof
    assume "particao_final (leiden niveis fuel ord G g) = Some (Inr (P, h))"
    then obtain g' where "leiden_laco niveis fuel ord G (estado_inicial G) g = Some (Inr ((P, h), g'))"
      by (auto simp: particao_final_Some leiden_def)
    from leiden_laco_historico [OF inv_historico_inicial this] show ?thesis by simp
  next
    assume "particao_final (louvain niveis fuel ord G g) = Some (Inr (P, h))"
    then obtain g' where "louvain_laco niveis fuel ord G (estado_inicial G) g = Some (Inr ((P, h), g'))"
      by (auto simp: particao_final_Some louvain_def)
    from louvain_laco_historico [OF inv_historico_inicial this] show ?thesis by simp
  qed
qed

theorem historico_crescente_witness:
  "wf_graph ciclo_e_aresta \<and> positive_weights ciclo_e_aresta \<and> valid_order remdups \<and>
   particao_final (leiden 4 4 remdups ciclo_e_aresta sorteio_zero) =
     Some (Inr ([(0, 0), (1, 0), (2, 0), (3, 0), (4, 5), (5, 5)], [10 / 27, 40 / 81])) \<and>
   particao_final (louvain 4 4 remdups ciclo_e_aresta sorteio_zero) =
     Some (Inr ([(0, 0), (1, 0), (2, 0), (3, 0), (4, 5), (5, 5)], [10 / 27, 40 / 81])) \<and>
   sorted_wrt (<) [10 / 27, 40 / 81 :: real]"
proof -
  have h1: "wf_graph ciclo_e_aresta" by (simp add: wf_graph_def ciclo_e_aresta_def)
  have h2: "positive_weights ciclo_e_aresta"
    by (simp add: positive_weights_def ciclo_e_aresta_def)
  have h3: "valid_order remdups" by (simp add: valid_order_def)
  have e1: "particao_final (leiden 4 4 remdups ciclo_e_aresta sorteio_zero) =
     Some (Inr ([(0, 0), (1, 0), (2, 0), (3, 0), (4, 5), (5, 5)], [10 / 27, 40 / 81]))"
    by code_simp
  have e2: "particao_final (louvain 4 4 remdups ciclo_e_aresta sorteio_zero) =
     Some (Inr ([(0, 0), (1, 0), (2, 0), (3, 0), (4, 5), (5, 5)], [10 / 27, 40 / 81]))"
    by code_simp
  from historico_crescente [OF h1 h2 h3, of sorteio_zero] e1
  have "sorted_wrt (<) [10 / 27, 40 / 81 :: real]" by blast
  with h1 h2 h3 e1 e2 show ?thesis by blast
qed

subsection \<open>A path on which the gain of a move is exactly zero\<close>

text \<open>
  Claim C5. On the path with the weights 0.1, 0.2, 0.2, 0.1, the nodes visited in the
  order 1, 2, 3, 4, 0, the first sweep of the local moving leaves the communities
  \<open>{0, 1, 2}\<close> and \<open>{3, 4}\<close>. In exact arithmetic moving node 2 to the community of
  node 3 has gain exactly 0, and so has moving it back: the test
  \<^verbatim>\<open>melhor_delta_q > 0\<close> fails, the second sweep moves nothing and the loop stops. The
  program evaluates the two gains in double precision, where they come out as
  \<^verbatim>\<open>2.7755575615628914e-17\<close> and \<^verbatim>\<open>5.551115123125783e-17\<close>: both moves are accepted,
  one in each sweep, and \<^verbatim>\<open>while melhorou\<close> does not end, so that \<^verbatim>\<open>leiden\<close> and
  \<^verbatim>\<open>louvain\<close> return no history on this graph.
\<close>

theorem ganho_nulo_no_caminho:
  "particao_final (encontrar_movimentacao_local 2 remdups caminho_simetrico caminho_simetrico
     (particao_singular caminho_simetrico) sorteio_zero) =
     Some (Inr [(0, 2), (1, 2), (2, 2), (3, 4), (4, 4)]) \<and>
   calc_delta_q caminho_simetrico [(0, 2), (1, 2), (2, 2), (3, 4), (4, 4)] 2 4 = Inr 0 \<and>
   calc_delta_q caminho_simetrico [(0, 2), (1, 2), (2, 4), (3, 4), (4, 4)] 2 2 = Inr 0"
  by code_simp

subsection \<open>The recomputed gain and the incremental gain\<close>

text \<open>
  On a closed graph with weight, for a partition of its nodes, the modularity after a move
  minus the modularity before it is the value of \<open>calc_delta_q\<close> plus the weight of the
  self-loop of the moved node over the total weight: the two agree exactly when the moved
  node has no self-loop.
\<close>

lemma sem_membros:
  assumes "c \<notin> snd ` set P"
  shows "peso_interno G (map_of P) c = 0" and "grau_comunidade G (map_of P) c = 0"
proof -
  have "map_of P u \<noteq> Some c" for u
    using assms by (metis map_of_SomeD snd_em)
  then show "peso_interno G (map_of P) c = 0" and "grau_comunidade G (map_of P) c = 0"
    by (simp_all add: peso_interno_def grau_comunidade_def)
qed

lemma modularity_spec_potencial:
  assumes d: "distinct (map fst P)" and fin: "finite C" and sub: "snd ` set P \<subseteq> C"
    and m: "size_graph G \<noteq> 0"
  shows "modularity_spec G P = potencial G C (map_of P)"
proof -
  let ?F = "\<lambda>c. peso_interno G (map_of P) c / size_graph G -
                (grau_comunidade G (map_of P) c / (2 * size_graph G))\<^sup>2"
  have "modularity_spec G P = (\<Sum>c \<in> snd ` set P. ?F c)"
    using m by (simp add: modularity_spec_def contribuicao_def peso_subgrafo [OF d]
        grau_da_comunidade [OF d])
  also have "\<dots> = (\<Sum>c \<in> C. ?F c)"
  proof (rule sum.mono_neutral_left [OF fin sub])
    show "\<forall>c \<in> C - snd ` set P. ?F c = 0"
      by (simp add: sem_membros)
  qed
  finally show ?thesis by (simp add: potencial_def)
qed

lemma delta_q_geral:
  assumes G: "grafo_fechado G" and d: "distinct (map fst P)"
    and k: "fst ` set P = set (nodes G)" and a: "map_of P n = Some a" and ac: "a \<noteq> c"
    and m: "size_graph G \<noteq> 0"
  shows "\<exists>antes depois dq.
           calcular_modularidade G P = Inr antes \<and>
           calcular_modularidade G (AList.update n c P) = Inr depois \<and>
           calc_delta_q G P n c = Inr dq \<and>
           depois - antes = dq + peso_laco G n / size_graph G"
proof -
  let ?P' = "AList.update n c P"
  let ?C = "insert c (snd ` set P)"
  from a have kn: "n \<in> fst ` set P" by (rule chave_de_P)
  have eq: "map fst ?P' = map fst P" by (rule update_chave_presente [OF kn])
  from d have d': "distinct (map fst ?P')" by (simp only: eq)
  have "set (map fst ?P') = set (map fst P)" by (simp only: eq)
  with k have k': "fst ` set ?P' = set (nodes G)" by simp
  have fin: "finite ?C" by simp
  have sub: "snd ` set P \<subseteq> ?C" by blast
  have sub': "snd ` set ?P' \<subseteq> ?C" by (rule valores_update)
  from a have aC: "a \<in> ?C" using map_of_SomeD snd_em by fastforce
  have cC: "c \<in> ?C" by simp
  from k have ks: "fst ` set P \<subseteq> set (nodes G)" by simp
  from k' have ks': "fst ` set ?P' \<subseteq> set (nodes G)" by simp
  from G have e: "\<forall>e \<in> set (edges G). fst e \<in> set (nodes G) \<and> fst (snd e) \<in> set (nodes G)"
    by (simp add: grafo_fechado_def)
  have q1: "calcular_modularidade G P = Inr (potencial G ?C (map_of P))"
    using calcular_modularidade_spec [OF d ks] modularity_spec_potencial [OF d fin sub m]
    by simp
  have q2: "calcular_modularidade G ?P' = Inr (potencial G ?C ((map_of P)(n \<mapsto> c)))"
    using calcular_modularidade_spec [OF d' ks'] modularity_spec_potencial [OF d' fin sub' m]
    by (simp add: update_conv')
  have dq: "calc_delta_q G P n c = Inr (ganho G (map_of P) n a c)"
    by (rule calc_delta_q_ok [OF m d k e a ac])
  have "potencial G ?C ((map_of P)(n \<mapsto> c)) - potencial G ?C (map_of P) =
          ganho G (map_of P) n a c + peso_laco G n / size_graph G"
    by (rule potencial_move [where f = "map_of P" and n = n, OF fin aC cC a ac m])
  with q1 q2 dq show ?thesis by blast
qed

end
